theory Spec2Isabelle
  imports Complex_Main
begin

section \<open>Data model of the session store\<close>

text \<open>
  The store (sessionStore, a Zustand store) keeps sessions, the chat messages of the
  current session, the latest screenshot, the takeover flag and the handle of the
  streaming connection. JavaScript values are modelled as follows: an optional or
  nullable field is an \<open>option\<close>; a string is a \<open>string\<close> whose non-ASCII literals
  are written as their UTF-8 bytes; \<open>Date.now()\<close> is a parameter \<open>now\<close> of every
  function that reads the clock; the status of a step is the string the code compares
  (\<open>'thinking'\<close>, \<open>'acting'\<close>, \<open>'completed'\<close>, \<open>'error'\<close>), because the history conversion
  casts an unchecked stored string into that type.
\<close>

text \<open>
  A JSON value, for the fields the code types as \<open>unknown\<close>. Numbers are the integers
  (step numbers and sizes are; durations, which the store only passes on, are reals).
\<close>

datatype json =
    JNull
  | JBool bool
  | JNum int
  | JStr string
  | JArr "json list"
  | JObj "(string \<times> json) list"

type_synonym json_obj = "(string \<times> json) list"

text \<open>
  A \<open>Date\<close>: \<open>new Date()\<close> at the clock reading \<open>now\<close> is \<open>Date_ms now\<close>, and
  \<open>new Date(text)\<close> is \<open>Date_of text\<close>.
\<close>

datatype date = Date_ms nat | Date_of string

text \<open>
  Modelled from the spec: the types \<open>AgentStep\<close>, \<open>Message\<close>, \<open>Session\<close> and
  \<open>TakeoverState\<close>, whose declarations (the module \<open>types\<close>) are not among the
  sources. The fields are those of the Step, Message and Takeover Request of the
  specification's data model, which are also the fields the store reads and writes;
  \<open>Message\<close> has the \<open>action\<close> field \<open>onAction\<close> writes, and of a session only the
  \<open>id\<close> and the \<open>agent_type\<close> that the store reads are kept. Field names that
  clash between records carry a prefix.
\<close>

record agent_step =
  step_id :: string
  stepNumber :: int
  thinking :: "string option"
  thinkingDuration :: "real option"
  action :: "json_obj option"
  actionDuration :: "real option"
  status :: string
  timestamp :: date

record message =
  msg_id :: string
  role :: string
  content :: string
  steps :: "agent_step list option"
  isStreaming :: "bool option"
  msg_timestamp :: date
  msg_action :: "json_obj option"

record session =
  session_id :: string
  agent_type :: "string option"

record screenshot_state =
  base64 :: "string option"
  width :: "int option"
  height :: "int option"

record takeover_state =
  isActive :: bool
  tk_message :: "string option"

record session_state =
  sessions :: "session list"
  currentSession :: "session option"
  isCreatingSession :: bool
  selectedAgentType :: string
  messages :: "message list"
  isProcessing :: bool
  screenshot :: "screenshot_state option"
  takeover :: takeover_state
  sseController :: "nat option"

text \<open>
  The payload of a frame after \<open>JSON.parse\<close>: an object of which each handler reads the
  properties its \<open>SSEEventData\<close> type names. A property that is missing reads as
  \<open>undefined\<close>, here \<open>None\<close>.
\<close>

record payload =
  chunk :: "string option"
  full :: "string option"
  duration :: "real option"
  p_action :: "json_obj option"
  p_message :: "string option"
  p_base64 :: "string option"
  p_width :: "int option"
  p_height :: "int option"

section \<open>JavaScript helpers\<close>

text \<open>\<open>a || d\<close> on an optional string: \<open>undefined\<close> and the empty string are falsy.\<close>

fun or_else :: "string option \<Rightarrow> string \<Rightarrow> string" where
  "or_else None d = d"
| "or_else (Some s) d = (if s = [] then d else s)"

text \<open>Decimal rendering of a number inside a template literal.\<close>

fun digit_char :: "nat \<Rightarrow> char" where
  "digit_char n = char_of (48 + n)"

fun show_nat :: "nat \<Rightarrow> string" where
  "show_nat n = (if n < 10 then [digit_char n] else show_nat (n div 10) @ [digit_char (n mod 10)])"

declare show_nat.simps [simp del]

section \<open>Store operations used by the stream handlers\<close>

text \<open>
  \<open>updateLastMessage(updates)\<close>: the spread \<open>{...messages[lastIndex], ...updates}\<close> is
  the function \<open>updates\<close> applied to the last message; with no message nothing changes.
\<close>

definition updateLastMessage :: "(message \<Rightarrow> message) \<Rightarrow> session_state \<Rightarrow> session_state" where
  "updateLastMessage updates st =
     (let msgs = messages st in
      if msgs \<noteq> [] then st\<lparr>messages := msgs[length msgs - 1 := updates (msgs ! (length msgs - 1))]\<rparr>
      else st)"

text \<open>\<open>lastMessage?.steps || []\<close> as both step handlers compute it.\<close>

definition current_steps :: "session_state \<Rightarrow> agent_step list" where
  "current_steps st =
     (if messages st = [] then []
      else (case steps (last (messages st)) of None \<Rightarrow> [] | Some ss \<Rightarrow> ss))"

definition onThinking :: "nat \<Rightarrow> payload \<Rightarrow> session_state \<Rightarrow> session_state" where
  "onThinking now data st =
     (let steps0 = current_steps st;
          thinkingContent = or_else (full data) (or_else (chunk data) [])
      in if steps0 = [] \<or> status (last steps0) = ''completed'' then
           (let newStep = \<lparr> step_id = ''step-'' @ show_nat now,
                             stepNumber = int (length steps0) + 1,
                             thinking = Some thinkingContent,
                             thinkingDuration = duration data,
                             action = None,
                             actionDuration = None,
                             status = ''thinking'',
                             timestamp = Date_ms now \<rparr>
            in updateLastMessage (\<lambda>m. m\<lparr>steps := Some (steps0 @ [newStep])\<rparr>) st)
         else
           (let lastStep = last steps0;
                updatedSteps = steps0[length steps0 - 1 :=
                   lastStep\<lparr>thinking := Some thinkingContent,
                            thinkingDuration := duration data,
                            status := ''thinking''\<rparr>]
            in updateLastMessage (\<lambda>m. m\<lparr>steps := Some updatedSteps\<rparr>) st))"

definition onAction :: "payload \<Rightarrow> session_state \<Rightarrow> session_state" where
  "onAction data st =
     (let steps0 = current_steps st
      in if length steps0 > 0 then
           (let lastStep = steps0 ! (length steps0 - 1);
                updatedSteps = steps0[length steps0 - 1 :=
                   lastStep\<lparr>action := p_action data,
                            actionDuration := duration data,
                            status := ''completed''\<rparr>]
            in updateLastMessage
                 (\<lambda>m. m\<lparr>steps := Some updatedSteps, msg_action := p_action data\<rparr>) st)
         else st)"

definition onScreenshot :: "payload \<Rightarrow> session_state \<Rightarrow> session_state" where
  "onScreenshot data st =
     st\<lparr>screenshot := Some \<lparr> base64 = p_base64 data, width = p_width data, height = p_height data \<rparr>\<rparr>"

definition onTakeover :: "payload \<Rightarrow> session_state \<Rightarrow> session_state" where
  "onTakeover data st = st\<lparr>takeover := \<lparr> isActive = True, tk_message = p_message data \<rparr>\<rparr>"

text \<open>The literals of the store, as UTF-8 bytes.\<close>

definition text_task_completed :: string where
  "text_task_completed =
     [CHR 0xE4, CHR 0xBB, CHR 0xBB, CHR 0xE5, CHR 0x8A, CHR 0xA1, CHR 0xE5, CHR 0xAE, CHR 0x8C,
      CHR 0xE6, CHR 0x88, CHR 0x90]"

definition text_task_stopped :: string where
  "text_task_stopped =
     [CHR 0xE4, CHR 0xBB, CHR 0xBB, CHR 0xE5, CHR 0x8A, CHR 0xA1, CHR 0xE5, CHR 0xB7, CHR 0xB2,
      CHR 0xE5, CHR 0x81, CHR 0x9C, CHR 0xE6, CHR 0xAD, CHR 0xA2]"

definition text_task_cancelled :: string where
  "text_task_cancelled =
     [CHR 0xE4, CHR 0xBB, CHR 0xBB, CHR 0xE5, CHR 0x8A, CHR 0xA1, CHR 0xE5, CHR 0xB7, CHR 0xB2,
      CHR 0xE5, CHR 0x8F, CHR 0x96, CHR 0xE6, CHR 0xB6, CHR 0x88]"

definition text_error_prefix :: string where
  "text_error_prefix = [CHR 0xE9, CHR 0x94, CHR 0x99, CHR 0xE8, CHR 0xAF, CHR 0xAF, CHR 0x3A, CHR 0x20]"

definition text_connection_error :: string where
  "text_connection_error =
     [CHR 0xE8, CHR 0xBF, CHR 0x9E, CHR 0xE6, CHR 0x8E, CHR 0xA5, CHR 0xE9, CHR 0x94, CHR 0x99,
      CHR 0xE8, CHR 0xAF, CHR 0xAF, CHR 0xEF, CHR 0xBC, CHR 0x8C, CHR 0xE8, CHR 0xAF, CHR 0xB7,
      CHR 0xE9, CHR 0x87, CHR 0x8D, CHR 0xE8, CHR 0xAF, CHR 0x95]"

definition text_send_failed :: string where
  "text_send_failed =
     [CHR 0xE5, CHR 0x8F, CHR 0x91, CHR 0xE9, CHR 0x80, CHR 0x81, CHR 0xE5, CHR 0xA4, CHR 0xB1,
      CHR 0xE8, CHR 0xB4, CHR 0xA5, CHR 0xEF, CHR 0xBC, CHR 0x8C, CHR 0xE8, CHR 0xAF, CHR 0xB7,
      CHR 0xE9, CHR 0x87, CHR 0x8D, CHR 0xE8, CHR 0xAF, CHR 0x95]"

text \<open>A value inside a template literal: \<open>undefined\<close> prints as the word.\<close>

fun template_str :: "string option \<Rightarrow> string" where
  "template_str None = ''undefined''"
| "template_str (Some s) = s"

definition onCompleted :: "payload \<Rightarrow> session_state \<Rightarrow> session_state" where
  "onCompleted data st =
     (updateLastMessage
        (\<lambda>m. m\<lparr>content := or_else (p_message data) text_task_completed,
                isStreaming := Some False\<rparr>) st)
     \<lparr>isProcessing := False, sseController := None\<rparr>"

definition onError :: "payload \<Rightarrow> session_state \<Rightarrow> session_state" where
  "onError data st =
     (let msgs = messages st;
          st1 = (if length msgs > 0 \<and> isStreaming (msgs ! (length msgs - 1)) = Some True
                 then updateLastMessage
                        (\<lambda>m. m\<lparr>content := text_error_prefix @ template_str (p_message data),
                                isStreaming := Some False\<rparr>) st
                 else st)
      in st1\<lparr>isProcessing := False, sseController := None\<rparr>)"

definition onStopped :: "payload \<Rightarrow> session_state \<Rightarrow> session_state" where
  "onStopped data st =
     (updateLastMessage
        (\<lambda>m. m\<lparr>content := or_else (p_message data) text_task_stopped,
                isStreaming := Some False\<rparr>) st)
     \<lparr>isProcessing := False, sseController := None\<rparr>"

definition onConnectionError :: "session_state \<Rightarrow> session_state" where
  "onConnectionError st =
     (let msgs = messages st;
          st1 = (if length msgs > 0 \<and> isStreaming (msgs ! (length msgs - 1)) = Some True
                 then updateLastMessage
                        (\<lambda>m. m\<lparr>content := text_connection_error, isStreaming := Some False\<rparr>) st
                 else st)
      in st1\<lparr>isProcessing := False, sseController := None\<rparr>)"

section \<open>Dispatch of parsed frames\<close>

text \<open>
  The \<open>switch\<close> of runTaskWithSSE on the event kind, with the handlers sendTask installs.
  \<open>onReady\<close> only logs. A kind that matches no case calls no handler.
\<close>

definition dispatch :: "nat \<Rightarrow> string \<Rightarrow> payload \<Rightarrow> session_state \<Rightarrow> session_state" where
  "dispatch now eventType data st =
     (if eventType = ''ready'' then st
      else if eventType = ''thinking'' then onThinking now data st
      else if eventType = ''action'' then onAction data st
      else if eventType = ''screenshot'' then onScreenshot data st
      else if eventType = ''takeover'' then onTakeover data st
      else if eventType = ''completed'' then onCompleted data st
      else if eventType = ''error'' then onError data st
      else if eventType = ''stopped'' then onStopped data st
      else st)"

text \<open>
  Frames are handled strictly in arrival order. A frame is the clock reading at its
  dispatch, its kind and its payload.
\<close>

fun apply_frames :: "(nat \<times> string \<times> payload) list \<Rightarrow> session_state \<Rightarrow> session_state" where
  "apply_frames [] st = st"
| "apply_frames ((now, eventType, data) # fs) st = apply_frames fs (dispatch now eventType data st)"

text \<open>
  The invariant of a step timeline: step numbers are 1, 2, 3, ... in order, and every
  step before the last one is completed.
\<close>

definition steps_inv :: "agent_step list \<Rightarrow> bool" where
  "steps_inv ss \<longleftrightarrow>
     map stepNumber ss = map (\<lambda>i. int i + 1) [0..<length ss] \<and>
     list_all (\<lambda>s. status s = ''completed'') (butlast ss)"

section \<open>The frame parser of runTaskWithSSE\<close>

definition LF :: char where
  "LF = CHR 0x0A"

definition frame_sep :: string where
  "frame_sep = [LF, LF]"

text \<open>\<open>s.startsWith(p)\<close>.\<close>

definition startsWith :: "string \<Rightarrow> string \<Rightarrow> bool" where
  "startsWith p s \<longleftrightarrow> take (length p) s = p"

text \<open>
  \<open>s.split(sep)\<close> for a non-empty separator: the text is scanned from the left, every
  occurrence found ends a piece and the scan goes on behind it. The empty text gives one
  empty piece. (The code only splits at \<open>"\n\n"\<close> and \<open>"\n"\<close>.)
\<close>

fun cons_hd :: "char \<Rightarrow> string list \<Rightarrow> string list" where
  "cons_hd c [] = [[c]]"
| "cons_hd c (h # t) = (c # h) # t"

fun js_split :: "string \<Rightarrow> string \<Rightarrow> string list" where
  "js_split sep [] = [[]]"
| "js_split sep (c # cs) =
     (if sep \<noteq> [] \<and> take (length sep) (c # cs) = sep
      then [] # js_split sep (drop (length sep - 1) cs)
      else cons_hd c (js_split sep cs))"

text \<open>Whether \<open>sep\<close> occurs in a text.\<close>

fun contains :: "string \<Rightarrow> string \<Rightarrow> bool" where
  "contains sep [] \<longleftrightarrow> sep = []"
| "contains sep (c # cs) \<longleftrightarrow> take (length sep) (c # cs) = sep \<or> contains sep cs"

text \<open>
  Lines 231 to 235: the decoded chunk \<open>received\<close> is appended to the buffer, the buffer is split at blank
  lines, the last piece (\<open>events.pop() || ''\<close>) stays in the buffer and the pieces
  before it are the complete frames.
\<close>

definition take_frames :: "string \<Rightarrow> string \<Rightarrow> string list \<times> string" where
  "take_frames buffer received =
     (let events = js_split frame_sep (buffer @ received)
      in (butlast events, if events = [] then [] else last events))"

text \<open>
  \<open>!eventStr.trim()\<close>: the frame holds white space only. Of the characters \<open>trim\<close>
  removes, the ASCII ones are tested; a frame of other white space has no \<open>event: \<close>
  line and is skipped by the next test of the loop all the same.
\<close>

definition js_whitespace :: "char \<Rightarrow> bool" where
  "js_whitespace c \<longleftrightarrow>
     c = CHR 0x09 \<or> c = CHR 0x0A \<or> c = CHR 0x0B \<or> c = CHR 0x0C \<or> c = CHR 0x0D \<or> c = CHR 0x20"

definition is_blank :: "string \<Rightarrow> bool" where
  "is_blank s \<longleftrightarrow> list_all js_whitespace s"

text \<open>The loop over the lines of one frame: the last line of each marker wins.\<close>

fun scan_lines :: "string list \<Rightarrow> string \<times> string \<Rightarrow> string \<times> string" where
  "scan_lines [] acc = acc"
| "scan_lines (line # ls) (eventType, eventData) =
     scan_lines ls
       (if startsWith ''event: '' line then (drop 7 line, eventData)
        else if startsWith ''data: '' line then (eventType, drop 6 line)
        else (eventType, eventData))"

definition parse_frame :: "string \<Rightarrow> string \<times> string" where
  "parse_frame eventStr = scan_lines (js_split [LF] eventStr) ([], [])"

text \<open>
  The body of the loop over the frames. \<open>JSON.parse\<close> is the parameter \<open>parse\<close>, with
  \<open>None\<close> where it throws; the \<open>catch\<close> logs and goes on to the next frame.
\<close>

definition process_event ::
  "(string \<Rightarrow> payload option) \<Rightarrow> nat \<Rightarrow> string \<Rightarrow> session_state \<Rightarrow> session_state" where
  "process_event parse now eventStr st =
     (if is_blank eventStr then st
      else (let (eventType, eventData) = parse_frame eventStr
            in if eventType = [] \<or> eventData = [] then st
               else (case parse eventData of
                       None \<Rightarrow> st
                     | Some data \<Rightarrow> dispatch now eventType data st)))"

text \<open>
  The frames of one chunk in order; \<open>clock i\<close> is the clock reading while the frame at
  position \<open>i\<close> is handled.
\<close>

fun process_events ::
  "(string \<Rightarrow> payload option) \<Rightarrow> (nat \<Rightarrow> nat) \<Rightarrow> nat \<Rightarrow> string list \<Rightarrow> session_state \<Rightarrow> session_state" where
  "process_events parse clock i [] st = st"
| "process_events parse clock i (e # es) st =
     process_events parse clock (Suc i) es (process_event parse (clock i) e st)"

text \<open>One round of the read loop: a chunk arrives, its complete frames are handled.\<close>

definition feed ::
  "(string \<Rightarrow> payload option) \<Rightarrow> (nat \<Rightarrow> nat) \<Rightarrow> string \<Rightarrow> string \<times> session_state \<Rightarrow> string \<times> session_state" where
  "feed parse clock received bs =
     (let (events, buffer') = take_frames (fst bs) received
      in (buffer', process_events parse clock 0 events (snd bs)))"

text \<open>A stream written by the server: every frame followed by a blank line.\<close>

definition encode_frames :: "string list \<Rightarrow> string" where
  "encode_frames fs = concat (map (\<lambda>f. f @ frame_sep) fs)"

section \<open>Store actions\<close>

text \<open>
  An action of the store is a function from the state to the new state and the calls it
  makes on its collaborators, in order. The answer of an awaited server call is a
  parameter of the action; an action runs as one step (frames that arrive while it
  awaits are not interleaved).
\<close>

datatype effect =
    Abort nat
  | RunTaskWithSSE string string string
  | ApiStopTask string
  | ApiCompleteTakeover string
  | ApiGetConversations string
  | ApiCreateSession "string option" string

datatype js_error = TypeError | Rejected

definition initial_state :: session_state where
  "initial_state =
     \<lparr> sessions = [], currentSession = None, isCreatingSession = False,
       selectedAgentType = ''glm'', messages = [], isProcessing = False, screenshot = None,
       takeover = \<lparr> isActive = False, tk_message = None \<rparr>, sseController = None \<rparr>"

definition abort_existing :: "session_state \<Rightarrow> effect list" where
  "abort_existing st = (case sseController st of None \<Rightarrow> [] | Some c \<Rightarrow> [Abort c])"

text \<open>
  \<open>sendTask(task)\<close>. \<open>conn\<close> is what \<open>runTaskWithSSE\<close> resolves to: the controller of
  the new connection, or \<open>None\<close> when the call rejects.
\<close>

definition sendTask ::
  "nat \<Rightarrow> string \<Rightarrow> nat option \<Rightarrow> session_state \<Rightarrow> session_state \<times> effect list" where
  "sendTask now task conn st =
     (if isProcessing st then (st, [])
      else (case currentSession st of
              None \<Rightarrow> (st, [])
            | Some cs \<Rightarrow>
                (let userMessage =
                       \<lparr> msg_id = ''user-'' @ show_nat now, role = ''user'', content = task,
                         steps = None, isStreaming = None, msg_timestamp = Date_ms now,
                         msg_action = None \<rparr>;
                     assistantMessage =
                       \<lparr> msg_id = ''assistant-'' @ show_nat now, role = ''assistant'', content = [],
                         steps = Some [], isStreaming = Some True, msg_timestamp = Date_ms now,
                         msg_action = None \<rparr>;
                     st1 = st\<lparr>messages := messages st @ [userMessage, assistantMessage],
                              isProcessing := True\<rparr>;
                     call = RunTaskWithSSE (session_id cs) task (selectedAgentType st)
                 in (case conn of
                       Some controller \<Rightarrow> (st1\<lparr>sseController := Some controller\<rparr>, [call])
                     | None \<Rightarrow>
                         (updateLastMessage
                            (\<lambda>m. m\<lparr>content := text_send_failed, isStreaming := Some False\<rparr>)
                            (st1\<lparr>isProcessing := False\<rparr>),
                          [call])))))"

text \<open>\<open>stopTask()\<close>. \<open>ok\<close> tells whether the stop request to the server resolved.\<close>

definition stopTask :: "bool \<Rightarrow> session_state \<Rightarrow> session_state \<times> effect list" where
  "stopTask ok st =
     (if \<not> isProcessing st then (st, [])
      else (case currentSession st of
              None \<Rightarrow> (st, [])
            | Some cs \<Rightarrow>
                (if ok then
                   ((updateLastMessage
                       (\<lambda>m. m\<lparr>content := text_task_stopped, isStreaming := Some False\<rparr>) st)
                      \<lparr>isProcessing := False, sseController := None\<rparr>,
                    ApiStopTask (session_id cs) # abort_existing st)
                 else
                   ((updateLastMessage
                       (\<lambda>m. m\<lparr>content := text_task_cancelled, isStreaming := Some False\<rparr>) st)
                      \<lparr>isProcessing := False, sseController := None\<rparr>,
                    [ApiStopTask (session_id cs)]))))"

text \<open>
  \<open>completeTakeover()\<close>. \<open>ok\<close> tells whether the notification resolved; a rejection is
  caught and logged.
\<close>

definition completeTakeover :: "bool \<Rightarrow> session_state \<Rightarrow> session_state \<times> effect list" where
  "completeTakeover ok st =
     (let calls = (case currentSession st of
                     None \<Rightarrow> []
                   | Some cs \<Rightarrow> (if ok then [ApiCompleteTakeover (session_id cs)]
                                else [ApiCompleteTakeover (session_id cs)]))
      in (st\<lparr>takeover := \<lparr> isActive = False, tk_message = None \<rparr>\<rparr>, calls))"

text \<open>
  \<open>createSession(name)\<close>. \<open>created\<close> is the session the server answers with, or \<open>None\<close>
  when the request rejects; the rejection leaves the action after the \<open>finally\<close> block.
\<close>

definition createSession ::
  "string option \<Rightarrow> session option \<Rightarrow> session_state \<Rightarrow> (js_error + session) \<times> session_state \<times> effect list" where
  "createSession name created st =
     (let calls = abort_existing st @ [ApiCreateSession name (selectedAgentType st)]
      in (case created of
            None \<Rightarrow> (Inl Rejected, st\<lparr>isCreatingSession := False\<rparr>, calls)
          | Some s \<Rightarrow>
              (Inr s,
               st\<lparr>sessions := s # sessions st, currentSession := Some s, messages := [],
                  screenshot := None, isProcessing := False,
                  takeover := \<lparr> isActive = False, tk_message = None \<rparr>,
                  sseController := None, isCreatingSession := False\<rparr>,
               calls)))"

section \<open>History conversion of selectSession\<close>

text \<open>
  The action column of a stored row, typed as the code types it. The code reads the
  column as an object (\<open>Record<string, unknown>\<close>), tests whether its \<open>steps\<close> property
  is an array, and casts that array to objects with an optional numeric \<open>stepNumber\<close>,
  string \<open>thinking\<close>, object \<open>action\<close> and string \<open>status\<close> (part_004, lines 139 to
  147). A stored step is such an object; a property that is missing or null is \<open>None\<close>.
  An element of the array is a stored step or null. A column is \<open>WithSteps\<close>, an object
  whose \<open>steps\<close> property is such an array, or \<open>Plain\<close>, an object whose \<open>steps\<close>
  property is missing (\<open>None\<close>) or holds a value that is not an array; in both the second
  argument lists the other properties of the object. Values of other types than the
  cast names are not rows of this model.
\<close>

record stored_step =
  ss_stepNumber :: "int option"
  ss_thinking :: "string option"
  ss_action :: "json_obj option"
  ss_status :: "string option"

datatype non_array = NNull | NBool bool | NNum int | NStr string | NObj json_obj

datatype action_column =
    WithSteps "stored_step option list" json_obj
  | Plain "non_array option" json_obj

record conversation =
  conv_id :: string
  conv_session_id :: string
  conv_role :: string
  conv_content :: string
  conv_thinking :: "string option"
  conv_action :: "action_column option"
  created_at :: string

text \<open>The column as the JSON object it is: what a step carries that takes the column whole.\<close>

fun non_array_json :: "non_array \<Rightarrow> json" where
  "non_array_json NNull = JNull"
| "non_array_json (NBool b) = JBool b"
| "non_array_json (NNum n) = JNum n"
| "non_array_json (NStr t) = JStr t"
| "non_array_json (NObj kvs) = JObj kvs"

definition stored_step_json :: "stored_step \<Rightarrow> json" where
  "stored_step_json e =
     JObj ((case ss_stepNumber e of None \<Rightarrow> [] | Some n \<Rightarrow> [(''stepNumber'', JNum n)]) @
           (case ss_thinking e of None \<Rightarrow> [] | Some t \<Rightarrow> [(''thinking'', JStr t)]) @
           (case ss_action e of None \<Rightarrow> [] | Some a \<Rightarrow> [(''action'', JObj a)]) @
           (case ss_status e of None \<Rightarrow> [] | Some t \<Rightarrow> [(''status'', JStr t)]))"

fun column_json :: "action_column \<Rightarrow> json_obj" where
  "column_json (WithSteps elems others) =
     (''steps'', JArr (map (\<lambda>e. case e of None \<Rightarrow> JNull | Some x \<Rightarrow> stored_step_json x) elems)) # others"
| "column_json (Plain None others) = others"
| "column_json (Plain (Some v) others) = (''steps'', non_array_json v) # others"

text \<open>\<open>n || d\<close> on an optional number: \<open>undefined\<close>, null and 0 are falsy.\<close>

fun or_else_num :: "int option \<Rightarrow> int \<Rightarrow> int" where
  "or_else_num None d = d"
| "or_else_num (Some n) d = (if n = 0 then d else n)"

text \<open>
  The callback of \<open>map\<close> on one element of the steps array, at position \<open>index\<close>.
  Reading a property of the element null throws a \<open>TypeError\<close>. Of a stored step only
  the four properties are read; the id and the timestamp come from the row.
\<close>

definition convert_step :: "conversation \<Rightarrow> nat \<Rightarrow> stored_step option \<Rightarrow> js_error + agent_step" where
  "convert_step conv index step =
     (case step of
        None \<Rightarrow> Inl TypeError
      | Some e \<Rightarrow>
          Inr \<lparr> step_id = conv_id conv @ ''-step-'' @ show_nat (index + 1),
                stepNumber = or_else_num (ss_stepNumber e) (int index + 1),
                thinking = ss_thinking e,
                thinkingDuration = None,
                action = ss_action e,
                actionDuration = None,
                status = or_else (ss_status e) ''completed'',
                timestamp = Date_of (created_at conv) \<rparr>)"

fun convert_steps ::
  "conversation \<Rightarrow> nat \<Rightarrow> stored_step option list \<Rightarrow> js_error + agent_step list" where
  "convert_steps conv index [] = Inr []"
| "convert_steps conv index (e # es) =
     (case convert_step conv index e of
        Inl err \<Rightarrow> Inl err
      | Inr s \<Rightarrow> (case convert_steps conv (Suc index) es of
                    Inl err \<Rightarrow> Inl err
                  | Inr ss \<Rightarrow> Inr (s # ss)))"

text \<open>
  \<open>actionData?.steps && Array.isArray(actionData.steps)\<close>: the steps array of the new
  format, when the action column holds one.
\<close>

definition steps_array :: "conversation \<Rightarrow> stored_step option list option" where
  "steps_array conv =
     (case conv_action conv of
        Some (WithSteps elems others) \<Rightarrow> Some elems
      | _ \<Rightarrow> None)"

text \<open>\<open>conv.thinking || conv.action\<close> as a condition.\<close>

definition has_legacy :: "conversation \<Rightarrow> bool" where
  "has_legacy conv \<longleftrightarrow>
     (case conv_thinking conv of None \<Rightarrow> False | Some t \<Rightarrow> t \<noteq> []) \<or> conv_action conv \<noteq> None"

definition conv_to_message :: "conversation \<Rightarrow> js_error + message" where
  "conv_to_message conv =
     (let msg = \<lparr> msg_id = conv_id conv, role = conv_role conv, content = conv_content conv,
                   steps = None, isStreaming = Some False,
                   msg_timestamp = Date_of (created_at conv), msg_action = None \<rparr>
      in if conv_role conv = ''assistant'' then
           (case steps_array conv of
              Some elems \<Rightarrow>
                (case convert_steps conv 0 elems of
                   Inl err \<Rightarrow> Inl err
                 | Inr ss \<Rightarrow> Inr (msg\<lparr>steps := Some ss\<rparr>))
            | None \<Rightarrow>
                (if has_legacy conv then
                   Inr (msg\<lparr>steps := Some
                     [\<lparr> step_id = conv_id conv @ ''-step-1'',
                        stepNumber = 1,
                        thinking = conv_thinking conv,
                        thinkingDuration = None,
                        action = map_option column_json (conv_action conv),
                        actionDuration = None,
                        status = ''completed'',
                        timestamp = Date_of (created_at conv) \<rparr>]\<rparr>)
                 else Inr msg))
         else Inr msg)"

fun convert_all :: "conversation list \<Rightarrow> js_error + message list" where
  "convert_all [] = Inr []"
| "convert_all (c # cs) =
     (case conv_to_message c of
        Inl err \<Rightarrow> Inl err
      | Inr m \<Rightarrow> (case convert_all cs of Inl err \<Rightarrow> Inl err | Inr ms \<Rightarrow> Inr (m # ms)))"

text \<open>
  \<open>selectSession(session)\<close>. \<open>loaded\<close> is the answer of \<open>getConversations\<close>, or \<open>None\<close>
  when it rejects. A rejection, or an exception while the rows are converted, is caught
  and logged, and the messages stay empty.
\<close>

definition selectSession ::
  "session \<Rightarrow> conversation list option \<Rightarrow> session_state \<Rightarrow> session_state \<times> effect list" where
  "selectSession s loaded st =
     (let calls = abort_existing st @ [ApiGetConversations (session_id s)];
          st1 = st\<lparr>currentSession := Some s, messages := [], screenshot := None,
                   isProcessing := False,
                   selectedAgentType := or_else (agent_type s) ''glm'',
                   sseController := None\<rparr>
      in (case loaded of
            None \<Rightarrow> (st1, calls)
          | Some conversations \<Rightarrow>
              (case convert_all conversations of
                 Inl err \<Rightarrow> (st1, calls)
               | Inr msgs \<Rightarrow> (st1\<lparr>messages := msgs\<rparr>, calls))))"

section \<open>Malformed frames and clock readings\<close>

text \<open>
  A frame the loop drops: after the scan of its lines the kind or the data is empty, or
  the data does not parse.
\<close>

definition malformed :: "(string \<Rightarrow> payload option) \<Rightarrow> string \<Rightarrow> bool" where
  "malformed parse eventStr \<longleftrightarrow>
     fst (parse_frame eventStr) = [] \<or> snd (parse_frame eventStr) = [] \<or>
     parse (snd (parse_frame eventStr)) = None"

text \<open>
  The clock readings of a run in which the frame at position \<open>k\<close> is absent: every
  other frame is handled at the reading it had.
\<close>

definition skip_reading :: "nat \<Rightarrow> (nat \<Rightarrow> nat) \<Rightarrow> nat \<Rightarrow> nat" where
  "skip_reading k clock j = (if j < k then clock j else clock (Suc j))"

section \<open>Example states and frames\<close>

definition empty_payload :: payload where
  "empty_payload =
     \<lparr> chunk = None, full = None, duration = None, p_action = None, p_message = None,
       p_base64 = None, p_width = None, p_height = None \<rparr>"

definition ex_session :: session where
  "ex_session = \<lparr> session_id = ''s1'', agent_type = Some ''glm'' \<rparr>"

definition ex_idle :: session_state where
  "ex_idle = initial_state\<lparr>currentSession := Some ex_session\<rparr>"

text \<open>The state after a task was sent on the selected session.\<close>

definition ex_running :: session_state where
  "ex_running = fst (sendTask 1000 ''open settings'' (Some 7) ex_idle)"

text \<open>Scenario B of the specification.\<close>

definition ex_frames_B :: "(nat \<times> string \<times> payload) list" where
  "ex_frames_B =
     [(1001, ''thinking'', empty_payload\<lparr>full := Some ''p1''\<rparr>),
      (1002, ''thinking'', empty_payload\<lparr>full := Some ''p1 continued''\<rparr>),
      (1003, ''action'', empty_payload\<lparr>p_action := Some [(''action'', JStr ''tap'')]\<rparr>),
      (1004, ''thinking'', empty_payload\<lparr>full := Some ''p2''\<rparr>),
      (1005, ''stopped'', empty_payload\<lparr>p_message := Some ''cancelled''\<rparr>)]"

text \<open>
  A takeover frame and then a completed frame arrive during the task: the task is over
  and the takeover was never acknowledged.
\<close>

definition ex_takeover_idle :: session_state where
  "ex_takeover_idle =
     apply_frames
       [(1001, ''takeover'', empty_payload\<lparr>p_message := Some ''please login''\<rparr>),
        (1002, ''completed'', empty_payload\<lparr>p_message := Some ''done''\<rparr>)]
       ex_running"

text \<open>
  A stand-in for \<open>JSON.parse\<close> on the three payload texts the examples use: two objects
  and one text that is no JSON.
\<close>

definition ex_json :: "string \<Rightarrow> string" where
  "ex_json v = ''{'' @ [CHR 0x22] @ ''full'' @ [CHR 0x22] @ '':'' @ [CHR 0x22] @ v @ [CHR 0x22] @ ''}''"

definition ex_parse :: "string \<Rightarrow> payload option" where
  "ex_parse s =
     (if s = ex_json ''p1'' then Some (empty_payload\<lparr>full := Some ''p1''\<rparr>)
      else if s = ex_json ''p2'' then Some (empty_payload\<lparr>full := Some ''p2''\<rparr>)
      else None)"

definition ex_frame :: "string \<Rightarrow> string \<Rightarrow> string" where
  "ex_frame kind json_text = ''event: '' @ kind @ [LF] @ ''data: '' @ json_text"

text \<open>Scenario D: a frame with a kind line and no data line.\<close>

definition ex_bad_frame :: string where
  "ex_bad_frame = ''event: thinking''"

definition ex_frame_p1 :: string where
  "ex_frame_p1 = ex_frame ''thinking'' (ex_json ''p1'')"

definition ex_frame_p2 :: string where
  "ex_frame_p2 = ex_frame ''thinking'' (ex_json ''p2'')"

text \<open>Two chunks: the first ends with a frame, the second ends inside one.\<close>

definition ex_chunk_1 :: string where
  "ex_chunk_1 = ''a'' @ frame_sep"

definition ex_chunk_2 :: string where
  "ex_chunk_2 = ''b'' @ frame_sep @ ''c''"

text \<open>Stored rows: a plain one, one in the legacy format, one in the new format.\<close>

definition ex_conv_plain :: conversation where
  "ex_conv_plain =
     \<lparr> conv_id = ''c1'', conv_session_id = ''s1'', conv_role = ''assistant'',
       conv_content = ''hello'', conv_thinking = None, conv_action = None,
       created_at = ''2025-01-01T00:00:00Z'' \<rparr>"

definition ex_conv_legacy :: conversation where
  "ex_conv_legacy = ex_conv_plain\<lparr>conv_thinking := Some ''look at the screen''\<rparr>"



text \<open>Another session to switch to.\<close>

definition ex_session_2 :: session where
  "ex_session_2 = \<lparr> session_id = ''s2'', agent_type = None \<rparr>"

text \<open>Scenario B before its last frame: the second step is open.\<close>

definition ex_open_step :: session_state where
  "ex_open_step = apply_frames (butlast ex_frames_B) ex_running"

section \<open>Basic facts about the store\<close>

lemma messages_updateLastMessage:
  "messages (updateLastMessage f st) =
     (if messages st = [] then [] else butlast (messages st) @ [f (last (messages st))])"
proof (cases "messages st = []")
  case True
  then show ?thesis by (simp add: updateLastMessage_def)
next
  case False
  then obtain ms m where "messages st = ms @ [m]"
    by (metis append_butlast_last_id)
  then show ?thesis by (simp add: updateLastMessage_def Let_def)
qed

lemma current_steps_updateLastMessage:
  "messages st \<noteq> [] \<Longrightarrow> steps (f (last (messages st))) = Some ss \<Longrightarrow>
     current_steps (updateLastMessage f st) = ss"
  by (simp add: current_steps_def messages_updateLastMessage)

lemma current_steps_updateLastMessage_same:
  "(\<And>m. steps (f m) = steps m) \<Longrightarrow> current_steps (updateLastMessage f st) = current_steps st"
  by (simp add: current_steps_def messages_updateLastMessage)

lemma current_steps_no_message: "messages st = [] \<Longrightarrow> current_steps st = []"
  by (simp add: current_steps_def)

lemma current_steps_fields [simp]:
  "current_steps (st\<lparr>isProcessing := b\<rparr>) = current_steps st"
  "current_steps (st\<lparr>sseController := c\<rparr>) = current_steps st"
  "current_steps (st\<lparr>screenshot := sc\<rparr>) = current_steps st"
  "current_steps (st\<lparr>takeover := t\<rparr>) = current_steps st"
  by (simp_all add: current_steps_def)

lemma update_last_snoc: "xs \<noteq> [] \<Longrightarrow> xs[length xs - Suc 0 := y] = butlast xs @ [y]"
  by (induction xs rule: rev_induct) simp_all

lemma current_steps_onThinking:
  "current_steps (onThinking now data st) =
     (if messages st = [] then []
      else if current_steps st = [] \<or> status (last (current_steps st)) = ''completed''
      then current_steps st @
           [\<lparr> step_id = ''step-'' @ show_nat now,
              stepNumber = int (length (current_steps st)) + 1,
              thinking = Some (or_else (full data) (or_else (chunk data) [])),
              thinkingDuration = duration data, action = None, actionDuration = None,
              status = ''thinking'', timestamp = Date_ms now \<rparr>]
      else butlast (current_steps st) @
           [(last (current_steps st))
              \<lparr>thinking := Some (or_else (full data) (or_else (chunk data) [])),
               thinkingDuration := duration data, status := ''thinking''\<rparr>])"
proof (cases "messages st = []")
  case True
  then have "current_steps st = []" by (rule current_steps_no_message)
  with True show ?thesis
    by (simp add: onThinking_def Let_def updateLastMessage_def current_steps_def)
next
  case False
  then show ?thesis
    by (simp add: onThinking_def Let_def current_steps_updateLastMessage update_last_snoc)
qed

lemma current_steps_onAction:
  "current_steps (onAction data st) =
     (if current_steps st = [] then []
      else butlast (current_steps st) @
           [(last (current_steps st))
              \<lparr>action := p_action data, actionDuration := duration data,
               status := ''completed''\<rparr>])"
proof (cases "current_steps st = []")
  case True
  then show ?thesis by (simp add: onAction_def Let_def)
next
  case False
  then have m: "messages st \<noteq> []" using current_steps_no_message by blast
  from False have l: "current_steps st ! (length (current_steps st) - Suc 0) = last (current_steps st)"
    by (simp add: last_conv_nth)
  from False m l show ?thesis
    by (simp add: onAction_def Let_def current_steps_updateLastMessage update_last_snoc)
qed

lemma current_steps_dispatch_other:
  "eventType \<noteq> ''thinking'' \<Longrightarrow> eventType \<noteq> ''action'' \<Longrightarrow>
     current_steps (dispatch now eventType data st) = current_steps st"
  by (simp add: dispatch_def onScreenshot_def onTakeover_def onCompleted_def onError_def
      onStopped_def Let_def current_steps_updateLastMessage_same)

lemma steps_inv_snoc:
  "steps_inv (ss @ [s]) \<longleftrightarrow>
     map stepNumber ss = map (\<lambda>i. int i + 1) [0..<length ss] \<and>
     stepNumber s = int (length ss) + 1 \<and> list_all (\<lambda>s. status s = ''completed'') ss"
  by (auto simp: steps_inv_def)

lemma list_all_butlast_last:
  "xs \<noteq> [] \<Longrightarrow> list_all P (butlast xs) \<Longrightarrow> P (last xs) \<Longrightarrow> list_all P xs"
  by (induction xs rule: rev_induct) simp_all

lemma steps_inv_Nil: "steps_inv []"
  by (simp add: steps_inv_def)

lemma steps_inv_butlast_last:
  "ss \<noteq> [] \<Longrightarrow> steps_inv ss \<longleftrightarrow>
     map stepNumber (butlast ss) = map (\<lambda>i. int i + 1) [0..<length ss - 1] \<and>
     stepNumber (last ss) = int (length ss - 1) + 1 \<and>
     list_all (\<lambda>s. status s = ''completed'') (butlast ss)"
  using steps_inv_snoc [of "butlast ss" "last ss"] by auto

lemma steps_inv_onThinking:
  assumes "steps_inv (current_steps st)"
  shows "steps_inv (current_steps (onThinking now data st))"
proof (cases "current_steps st = []")
  case True
  then show ?thesis
    by (simp add: current_steps_onThinking steps_inv_def)
next
  case False
  note ne = this
  show ?thesis
  proof (cases "status (last (current_steps st)) = ''completed''")
    case True
    from assms ne have "list_all (\<lambda>s. status s = ''completed'') (butlast (current_steps st))"
      by (simp add: steps_inv_def)
    with True ne have all: "list_all (\<lambda>s. status s = ''completed'') (current_steps st)"
      by (rule_tac list_all_butlast_last) simp_all
    from assms have "map stepNumber (current_steps st) = map (\<lambda>i. int i + 1) [0..<length (current_steps st)]"
      by (simp add: steps_inv_def)
    with all True ne current_steps_no_message [of st] show ?thesis
      by (auto simp add: current_steps_onThinking steps_inv_snoc)
  next
    case False
    from ne have m: "messages st \<noteq> []" using current_steps_no_message by blast
    from assms ne have
      "map stepNumber (butlast (current_steps st)) = map (\<lambda>i. int i + 1) [0..<length (current_steps st) - 1]"
      "stepNumber (last (current_steps st)) = int (length (current_steps st) - 1) + 1"
      "list_all (\<lambda>s. status s = ''completed'') (butlast (current_steps st))"
      by (simp_all add: steps_inv_butlast_last)
    with False ne m show ?thesis
      by (simp add: current_steps_onThinking steps_inv_snoc)
  qed
qed

lemma steps_inv_onAction:
  assumes "steps_inv (current_steps st)"
  shows "steps_inv (current_steps (onAction data st))"
proof (cases "current_steps st = []")
  case True
  then show ?thesis by (simp add: current_steps_onAction steps_inv_Nil)
next
  case False
  with assms have
    "map stepNumber (butlast (current_steps st)) = map (\<lambda>i. int i + 1) [0..<length (current_steps st) - 1]"
    "stepNumber (last (current_steps st)) = int (length (current_steps st) - 1) + 1"
    "list_all (\<lambda>s. status s = ''completed'') (butlast (current_steps st))"
    by (simp_all add: steps_inv_butlast_last)
  with False show ?thesis
    by (simp add: current_steps_onAction steps_inv_snoc)
qed

lemma steps_inv_dispatch:
  "steps_inv (current_steps st) \<Longrightarrow> steps_inv (current_steps (dispatch now eventType data st))"
proof (cases "eventType = ''thinking'' \<or> eventType = ''action''")
  case True
  assume "steps_inv (current_steps st)"
  with True show ?thesis
    by (auto simp: dispatch_def steps_inv_onThinking steps_inv_onAction)
next
  case False
  assume "steps_inv (current_steps st)"
  with False show ?thesis by (simp add: current_steps_dispatch_other)
qed

lemma steps_inv_apply_frames:
  "steps_inv (current_steps st) \<Longrightarrow> steps_inv (current_steps (apply_frames fs st))"
proof (induction fs arbitrary: st)
  case Nil
  then show ?case by simp
next
  case (Cons f fs)
  obtain now eventType data where f: "f = (now, eventType, data)" by (cases f) auto
  from Cons.prems have "steps_inv (current_steps (dispatch now eventType data st))"
    by (rule steps_inv_dispatch)
  then show ?case unfolding f by (simp add: Cons.IH)
qed

section \<open>Facts about splitting\<close>

lemma js_split_nonempty: "js_split sep s \<noteq> []"
  by (induction sep s rule: js_split.induct) (auto simp: neq_Nil_conv elim: cons_hd.elims)

lemma cons_hd_append: "xs \<noteq> [] \<Longrightarrow> cons_hd c (xs @ ys) = cons_hd c xs @ ys"
  by (cases xs) simp_all

lemma butlast_cons_hd: "length xs \<ge> 2 \<Longrightarrow> butlast (cons_hd c xs) = cons_hd c (butlast xs)"
  by (induction xs rule: induct_list012) simp_all

lemma last_cons_hd: "length xs \<ge> 2 \<Longrightarrow> last (cons_hd c xs) = last xs"
  by (induction xs rule: induct_list012) simp_all

lemma take_append_le: "n \<le> length xs \<Longrightarrow> take n (xs @ ys) = take n xs"
  by simp

lemma drop_append_le: "n \<le> length xs \<Longrightarrow> drop n (xs @ ys) = drop n xs @ ys"
  by simp

lemma take_eq_length: "take (length p) s = p \<Longrightarrow> length p \<le> length s"
  by (metis length_take min.cobounded1)

lemma js_split_short: "length s < length sep \<Longrightarrow> js_split sep s = [s]"
  by (induction s) auto

lemma js_split_single: "js_split sep s = [h] \<Longrightarrow> h = s"
proof (induction sep s arbitrary: h rule: js_split.induct)
  case (1 sep)
  then show ?case by simp
next
  case (2 sep c cs)
  show ?case
  proof (cases "sep \<noteq> [] \<and> take (length sep) (c # cs) = sep")
    case True
    with "2.prems" show ?thesis by (simp add: js_split_nonempty)
  next
    case False
    with "2.prems" have ch: "cons_hd c (js_split sep cs) = [h]" by auto
    then obtain h' where h': "js_split sep cs = [h']" "h = c # h'"
      by (cases "js_split sep cs") (auto simp: js_split_nonempty)
    with "2.IH"(2) False have "h' = cs" by blast
    with h' show ?thesis by simp
  qed
qed

lemma js_split_append:
  "sep \<noteq> [] \<Longrightarrow>
   js_split sep (a @ b) = butlast (js_split sep a) @ js_split sep (last (js_split sep a) @ b)"
proof (induction sep a rule: js_split.induct)
  case (1 sep)
  then show ?case by simp
next
  case (2 sep c cs)
  let ?n = "length sep"
  show ?case
  proof (cases "take ?n (c # cs) = sep")
    case True
    then have len: "?n \<le> length (c # cs)"
      by (rule take_eq_length)
    from len have "take ?n ((c # cs) @ b) = take ?n (c # cs)" by (rule take_append_le)
    with True have t: "take ?n ((c # cs) @ b) = sep" by simp
    from len have "?n - 1 \<le> length cs" by simp
    then have d: "drop (?n - 1) (cs @ b) = drop (?n - 1) cs @ b" by (rule drop_append_le)
    from "2.IH"(1) "2.prems" True
    have ih: "js_split sep (drop (?n - 1) cs @ b) =
        butlast (js_split sep (drop (?n - 1) cs)) @
        js_split sep (last (js_split sep (drop (?n - 1) cs)) @ b)" by simp
    from True t d ih "2.prems" show ?thesis
      by (simp add: js_split_nonempty)
  next
    case False
    note nf = this
    show ?thesis
    proof (cases "take ?n ((c # cs) @ b) = sep")
      case True
      have "length (c # cs) < ?n"
      proof (rule ccontr)
        assume "\<not> length (c # cs) < ?n"
        then have "?n \<le> length (c # cs)" by simp
        then have "take ?n ((c # cs) @ b) = take ?n (c # cs)" by (rule take_append_le)
        with True nf show False by simp
      qed
      then have "js_split sep (c # cs) = [c # cs]" by (rule js_split_short)
      then show ?thesis by simp
    next
      case False
      from "2.IH"(2) "2.prems" nf
      have ih: "js_split sep (cs @ b) =
        butlast (js_split sep cs) @ js_split sep (last (js_split sep cs) @ b)" by simp
      show ?thesis
      proof (cases "length (js_split sep cs) \<ge> 2")
        case True
        then have ne: "butlast (js_split sep cs) \<noteq> []"
          by (cases "js_split sep cs") (auto split: if_splits)
        from nf False have "js_split sep ((c # cs) @ b) = cons_hd c (js_split sep (cs @ b))" by simp
        also have "\<dots> = cons_hd c (butlast (js_split sep cs)) @ js_split sep (last (js_split sep cs) @ b)"
          by (subst ih) (simp add: cons_hd_append ne)
        finally show ?thesis using nf True
          by (simp add: butlast_cons_hd last_cons_hd)
      next
        case False
        have "length (js_split sep cs) \<noteq> 0"
          using js_split_nonempty [of sep cs] by simp
        with False have "length (js_split sep cs) = 1" by arith
        then obtain h where h: "js_split sep cs = [h]"
          by (auto simp: length_Suc_conv)
        then have "h = cs" by (rule js_split_single)
        with h nf show ?thesis by simp
      qed
    qed
  qed
qed

lemma recon_cons_hd:
  "xs \<noteq> [] \<Longrightarrow>
   concat (map (\<lambda>f. f @ sep) (butlast (cons_hd c xs))) @ last (cons_hd c xs) =
   c # (concat (map (\<lambda>f. f @ sep) (butlast xs)) @ last xs)"
  by (induction xs rule: induct_list012) simp_all

lemma js_split_concat:
  "sep \<noteq> [] \<Longrightarrow>
   concat (map (\<lambda>f. f @ sep) (butlast (js_split sep s))) @ last (js_split sep s) = s"
proof (induction sep s rule: js_split.induct)
  case (1 sep)
  then show ?case by simp
next
  case (2 sep c cs)
  let ?n = "length sep"
  show ?case
  proof (cases "take ?n (c # cs) = sep")
    case True
    from "2.prems" have "drop ?n (c # cs) = drop (?n - 1) cs"
      by (cases sep) simp_all
    with True have whole: "sep @ drop (?n - 1) cs = c # cs"
      by (metis append_take_drop_id)
    let ?X = "js_split sep (drop (?n - 1) cs)"
    from True "2.prems" have js: "js_split sep (c # cs) = [] # ?X" by simp
    from "2.IH"(1) "2.prems" True
    have ih: "concat (map (\<lambda>f. f @ sep) (butlast ?X)) @ last ?X = drop (?n - 1) cs" by simp
    have "concat (map (\<lambda>f. f @ sep) (butlast ([] # ?X))) @ last ([] # ?X) =
          sep @ (concat (map (\<lambda>f. f @ sep) (butlast ?X)) @ last ?X)"
      by (simp add: js_split_nonempty)
    also have "\<dots> = c # cs" by (simp only: ih whole)
    finally show ?thesis by (simp only: js)
  next
    case False
    with "2.IH"(2) "2.prems" show ?thesis
      by (simp add: recon_cons_hd js_split_nonempty)
  qed
qed

lemma js_split_hd:
  "sep \<noteq> [] \<Longrightarrow> js_split sep s = h # t \<Longrightarrow> t \<noteq> [] \<Longrightarrow> \<exists>r. s = h @ sep @ r"
proof -
  assume sep: "sep \<noteq> []" and s: "js_split sep s = h # t" and t: "t \<noteq> []"
  from t have "butlast (h # t) = h # butlast t" by simp
  with js_split_concat [OF sep, of s] s
  have "s = h @ sep @ (concat (map (\<lambda>f. f @ sep) (butlast t)) @ last (h # t))"
    by simp
  then show ?thesis by blast
qed

lemma js_split_pieces:
  "sep \<noteq> [] \<Longrightarrow> list_all (\<lambda>f. \<not> contains sep f) (js_split sep s)"
proof (induction sep s rule: js_split.induct)
  case (1 sep)
  then show ?case by simp
next
  case (2 sep c cs)
  let ?n = "length sep"
  show ?case
  proof (cases "take ?n (c # cs) = sep")
    case True
    with "2.IH"(1) "2.prems" show ?thesis by simp
  next
    case False
    with "2.IH"(2) "2.prems" have ih: "list_all (\<lambda>f. \<not> contains sep f) (js_split sep cs)"
      by simp
    obtain h t where ht: "js_split sep cs = h # t"
      using js_split_nonempty [of sep cs] by (cases "js_split sep cs") auto
    have "take ?n (c # h) \<noteq> sep"
    proof
      assume eq: "take ?n (c # h) = sep"
      then have len: "?n \<le> length (c # h)" by (rule take_eq_length)
      show False
      proof (cases "t = []")
        case True
        with ht have "h = cs" by (simp add: js_split_single)
        with eq False show False by simp
      next
        case False
        with ht "2.prems" obtain r where "cs = h @ sep @ r"
          using js_split_hd by blast
        then have "c # cs = (c # h) @ sep @ r" by simp
        then have "take ?n (c # cs) = take ?n (c # h)"
          using len take_append_le by metis
        with eq \<open>take ?n (c # cs) \<noteq> sep\<close> show False by simp
      qed
    qed
    with ih ht False show ?thesis by simp
  qed
qed

lemma take_frames_append:
  "take_frames b (c1 @ c2) =
     (fst (take_frames b c1) @ fst (take_frames (snd (take_frames b c1)) c2),
      snd (take_frames (snd (take_frames b c1)) c2))"
proof -
  have sep: "frame_sep \<noteq> []" by (simp add: frame_sep_def)
  let ?s1 = "js_split frame_sep (b @ c1)"
  let ?s2 = "js_split frame_sep (last ?s1 @ c2)"
  have "js_split frame_sep (b @ c1 @ c2) = butlast ?s1 @ ?s2"
    using js_split_append [OF sep, of "b @ c1" c2] by simp
  moreover have "?s2 \<noteq> []" by (rule js_split_nonempty)
  ultimately show ?thesis
    by (simp add: take_frames_def Let_def js_split_nonempty butlast_append)
qed

lemma take_frames_concat:
  "concat (map (\<lambda>f. f @ frame_sep) (fst (take_frames b c))) @ snd (take_frames b c) = b @ c"
  using js_split_concat [of frame_sep "b @ c"]
  by (simp add: take_frames_def Let_def js_split_nonempty frame_sep_def)

lemma list_all_butlast: "list_all P xs \<Longrightarrow> list_all P (butlast xs)"
  by (induction xs) simp_all

lemma list_all_last: "list_all P xs \<Longrightarrow> xs \<noteq> [] \<Longrightarrow> P (last xs)"
  by (induction xs) (auto split: if_splits)

lemma take_frames_pieces:
  "list_all (\<lambda>f. \<not> contains frame_sep f) (fst (take_frames b c))"
  "\<not> contains frame_sep (snd (take_frames b c))"
proof -
  have sep: "frame_sep \<noteq> []" by (simp add: frame_sep_def)
  have all: "list_all (\<lambda>f. \<not> contains frame_sep f) (js_split frame_sep (b @ c))"
    using sep by (rule js_split_pieces)
  from all show "list_all (\<lambda>f. \<not> contains frame_sep f) (fst (take_frames b c))"
    by (simp add: take_frames_def Let_def list_all_butlast)
  from list_all_last [OF all js_split_nonempty]
  show "\<not> contains frame_sep (snd (take_frames b c))"
    by (simp add: take_frames_def Let_def js_split_nonempty)
qed

lemma js_split_terminated:
  "\<not> contains frame_sep (f @ [LF]) \<Longrightarrow> js_split frame_sep (f @ frame_sep) = [f, []]"
proof (induction f)
  case Nil
  then show ?case by (simp add: frame_sep_def)
next
  case (Cons c cs)
  from Cons.prems have nc: "\<not> contains frame_sep (cs @ [LF])"
    and nt: "take 2 (c # cs @ [LF]) \<noteq> frame_sep"
    by (simp_all add: frame_sep_def)
  from nt have "take 2 (c # cs @ frame_sep) \<noteq> frame_sep"
    by (cases cs) (simp_all add: frame_sep_def)
  with Cons.IH [OF nc] show ?case by (simp add: frame_sep_def)
qed

lemma js_split_encode_frames:
  "list_all (\<lambda>f. \<not> contains frame_sep (f @ [LF])) fs \<Longrightarrow>
   js_split frame_sep (encode_frames fs @ r) = fs @ js_split frame_sep r"
proof (induction fs)
  case Nil
  then show ?case by (simp add: encode_frames_def)
next
  case (Cons f fs)
  have sep: "frame_sep \<noteq> []" by (simp add: frame_sep_def)
  from Cons.prems have f: "js_split frame_sep (f @ frame_sep) = [f, []]"
    by (simp add: js_split_terminated)
  from Cons have ih: "js_split frame_sep (encode_frames fs @ r) = fs @ js_split frame_sep r"
    by simp
  have "encode_frames (f # fs) @ r = (f @ frame_sep) @ (encode_frames fs @ r)"
    by (simp add: encode_frames_def)
  then have "js_split frame_sep (encode_frames (f # fs) @ r) =
     butlast (js_split frame_sep (f @ frame_sep)) @
     js_split frame_sep (last (js_split frame_sep (f @ frame_sep)) @ (encode_frames fs @ r))"
    using js_split_append [OF sep, of "f @ frame_sep" "encode_frames fs @ r"] by simp
  with f ih show ?case by simp
qed

lemma take_frames_encode_frames:
  "list_all (\<lambda>f. \<not> contains frame_sep (f @ [LF])) fs \<Longrightarrow>
   take_frames [] (encode_frames fs) = (fs, [])"
  using js_split_encode_frames [of fs "[]"] by (simp add: take_frames_def Let_def)

lemma process_event_malformed:
  "malformed parse m \<Longrightarrow> process_event parse now m st = st"
  by (auto simp: malformed_def process_event_def Let_def split: prod.splits option.splits)

lemma set_cons_hd: "l \<in> set (cons_hd c xs) \<Longrightarrow> set l \<subseteq> insert c (\<Union>(set ` set xs))"
  by (cases xs) auto

lemma set_js_split: "l \<in> set (js_split sep s) \<Longrightarrow> set l \<subseteq> set s"
proof (induction sep s arbitrary: l rule: js_split.induct)
  case (1 sep)
  then show ?case by simp
next
  case (2 sep c cs)
  show ?case
  proof (cases "sep \<noteq> [] \<and> take (length sep) (c # cs) = sep")
    case True
    with "2.prems" have "l = [] \<or> l \<in> set (js_split sep (drop (length sep - 1) cs))" by auto
    then show ?thesis
    proof
      assume "l = []"
      then show ?thesis by simp
    next
      assume "l \<in> set (js_split sep (drop (length sep - 1) cs))"
      with "2.IH"(1) True have "set l \<subseteq> set (drop (length sep - 1) cs)" by blast
      then show ?thesis using set_drop_subset [of "length sep - 1" cs] by auto
    qed
  next
    case False
    with "2.prems" have "l \<in> set (cons_hd c (js_split sep cs))" by auto
    then have "set l \<subseteq> insert c (\<Union>(set ` set (js_split sep cs)))" by (rule set_cons_hd)
    moreover have "\<Union>(set ` set (js_split sep cs)) \<subseteq> set cs"
      using "2.IH"(2) False by blast
    ultimately show ?thesis by auto
  qed
qed

lemma scan_lines_no_marker:
  "\<forall>l \<in> set ls. \<not> startsWith ''event: '' l \<Longrightarrow> fst (scan_lines ls acc) = fst acc"
  by (induction ls acc rule: scan_lines.induct) simp_all

lemma startsWith_event_letter: "startsWith ''event: '' l \<Longrightarrow> CHR ''e'' \<in> set l"
proof -
  assume "startsWith ''event: '' l"
  then have eq: "take (length ''event: '') l = ''event: ''" unfolding startsWith_def .
  have "CHR ''e'' \<in> set ''event: ''" by simp
  then have "CHR ''e'' \<in> set (take (length ''event: '') l)" by (simp only: eq)
  then show ?thesis by (rule in_set_takeD)
qed

text \<open>
  A frame without the letter \<open>e\<close> has no kind line and is dropped: so is every frame
  of white space only, whichever characters count as white space.
\<close>

lemma frame_without_kind:
  "CHR ''e'' \<notin> set eventStr \<Longrightarrow> process_event parse now eventStr st = st"
proof -
  assume e: "CHR ''e'' \<notin> set eventStr"
  have "\<forall>l \<in> set (js_split [LF] eventStr). \<not> startsWith ''event: '' l"
    using e set_js_split startsWith_event_letter by blast
  then have "fst (parse_frame eventStr) = []"
    by (simp add: parse_frame_def scan_lines_no_marker)
  then have "malformed parse eventStr" by (simp add: malformed_def)
  then show ?thesis by (rule process_event_malformed)
qed

lemma process_events_cong:
  "(\<And>j. i \<le> j \<Longrightarrow> j < i + length es \<Longrightarrow> c1 j = c2 j) \<Longrightarrow>
   process_events parse c1 i es st = process_events parse c2 i es st"
proof (induction es arbitrary: i st)
  case Nil
  then show ?case by simp
next
  case (Cons e es)
  have "c1 i = c2 i" using Cons.prems [of i] by simp
  moreover have "process_events parse c1 (Suc i) es st' = process_events parse c2 (Suc i) es st'" for st'
    using Cons.prems by (intro Cons.IH) simp_all
  ultimately show ?case by simp
qed

lemma process_events_shift:
  "process_events parse clock (Suc i) es st = process_events parse (\<lambda>j. clock (Suc j)) i es st"
  by (induction es arbitrary: i st) simp_all

lemma process_events_drop_malformed:
  "malformed parse m \<Longrightarrow>
   process_events parse clock i (xs @ m # ys) st =
   process_events parse (skip_reading (i + length xs) clock) i (xs @ ys) st"
proof (induction xs arbitrary: i st)
  case Nil
  have "process_events parse clock (Suc i) ys st = process_events parse (\<lambda>j. clock (Suc j)) i ys st"
    by (rule process_events_shift)
  also have "\<dots> = process_events parse (skip_reading i clock) i ys st"
    by (rule process_events_cong) (simp add: skip_reading_def)
  finally show ?case using Nil by (simp add: process_event_malformed)
next
  case (Cons x xs)
  have "skip_reading (i + length (x # xs)) clock i = clock i"
    by (simp add: skip_reading_def)
  with Cons.IH [OF Cons.prems, of "Suc i"] show ?case by simp
qed

lemma ex_running_eq:
  "ex_running =
     \<lparr> sessions = [], currentSession = Some ex_session, isCreatingSession = False,
       selectedAgentType = ''glm'',
       messages =
         [\<lparr> msg_id = ''user-'' @ show_nat 1000, role = ''user'', content = ''open settings'',
             steps = None, isStreaming = None, msg_timestamp = Date_ms 1000, msg_action = None \<rparr>,
          \<lparr> msg_id = ''assistant-'' @ show_nat 1000, role = ''assistant'', content = [],
             steps = Some [], isStreaming = Some True, msg_timestamp = Date_ms 1000,
             msg_action = None \<rparr>],
       isProcessing = True, screenshot = None,
       takeover = \<lparr> isActive = False, tk_message = None \<rparr>, sseController = Some 7 \<rparr>"
  by (simp add: ex_running_def ex_idle_def initial_state_def sendTask_def Let_def)

lemma ex_running_steps: "messages ex_running \<noteq> []" "current_steps ex_running = []"
  by (simp_all add: ex_running_eq current_steps_def)

lemma length_messages_updateLastMessage:
  "length (messages (updateLastMessage f st)) = length (messages st)"
  by (simp add: updateLastMessage_def Let_def)

lemma length_messages_handlers:
  "length (messages (onThinking now data st)) = length (messages st)"
  "length (messages (onAction data st)) = length (messages st)"
  "length (messages (onScreenshot data st)) = length (messages st)"
  "length (messages (onTakeover data st)) = length (messages st)"
  "length (messages (onCompleted data st)) = length (messages st)"
  "length (messages (onError data st)) = length (messages st)"
  "length (messages (onStopped data st)) = length (messages st)"
  by (simp_all add: onThinking_def onAction_def onScreenshot_def onTakeover_def
      onCompleted_def onError_def onStopped_def Let_def length_messages_updateLastMessage)

lemma length_messages_dispatch:
  "length (messages (dispatch now eventType data st)) = length (messages st)"
  by (simp add: dispatch_def length_messages_handlers)

lemma messages_dispatch_empty:
  "messages (dispatch now eventType data st) = [] \<longleftrightarrow> messages st = []"
  using length_messages_dispatch [of now eventType data st] by (metis length_0_conv)

lemma messages_onThinking_empty:
  "messages (onThinking now data st) = [] \<longleftrightarrow> messages st = []"
  using messages_dispatch_empty [of now "''thinking''" data st] by (simp add: dispatch_def)

lemma messages_onAction_empty:
  "messages (onAction data st) = [] \<longleftrightarrow> messages st = []"
  using messages_dispatch_empty [of 0 "''action''" data st] by (simp add: dispatch_def)

lemma ex_B_steps:
  "map (\<lambda>s. (stepNumber s, thinking s, status s)) (current_steps (apply_frames ex_frames_B ex_running)) =
     [(1, Some ''p1 continued'', ''completed''), (2, Some ''p2'', ''thinking'')]"
  by (simp add: ex_frames_B_def dispatch_def current_steps_onThinking
      current_steps_onAction onStopped_def current_steps_updateLastMessage_same
      empty_payload_def ex_running_steps messages_onThinking_empty messages_onAction_empty)

lemma steps_inv_nth:
  assumes "steps_inv ss"
  shows "i < length ss \<Longrightarrow> stepNumber (ss ! i) = int i + 1"
    and "Suc i < length ss \<Longrightarrow> status (ss ! i) = ''completed''"
proof -
  from assms have m: "map stepNumber ss = map (\<lambda>i. int i + 1) [0..<length ss]"
    and a: "list_all (\<lambda>s. status s = ''completed'') (butlast ss)"
    by (simp_all add: steps_inv_def)
  show "stepNumber (ss ! i) = int i + 1" if "i < length ss"
  proof -
    from that have "stepNumber (ss ! i) = map stepNumber ss ! i" by simp
    also have "\<dots> = map (\<lambda>i. int i + 1) [0..<length ss] ! i" by (simp only: m)
    also from that have "\<dots> = int i + 1" by simp
    finally show ?thesis .
  qed
  show "status (ss ! i) = ''completed''" if "Suc i < length ss"
  proof -
    from that have "i < length (butlast ss)" by simp
    with a have "status (butlast ss ! i) = ''completed''"
      by (simp add: list_all_length)
    with \<open>i < length (butlast ss)\<close> show ?thesis by (simp add: nth_butlast)
  qed
qed

section \<open>The step reducer\<close>

text \<open>
  Claim C1. A thinking frame arrives while the store holds a last message with the step
  list \<open>ss\<close>. If \<open>ss\<close> is empty or its last step is completed, the handler appends one
  step: the old steps are kept, the new one has status thinking, step number
  \<open>length ss + 1\<close>, the duration of the payload, and as thinking text the \<open>full\<close> field
  of the payload, else its \<open>chunk\<close> field, else the empty text (\<open>||\<close> passes over a field
  that is missing or empty). Otherwise the number of steps stays, the steps before the
  last one stay, and the last step gets the new thinking text and duration and has
  status thinking. The new list is stored on the last message.
\<close>

theorem onThinking_reducer:
  assumes "messages st \<noteq> []"
  shows "(let ss = current_steps st;
              st' = onThinking now data st;
              ss' = current_steps st';
              content' = or_else (full data) (or_else (chunk data) [])
          in steps (last (messages st')) = Some ss' \<and>
             (if ss = [] \<or> status (last ss) = ''completed''
              then length ss' = length ss + 1 \<and> butlast ss' = ss \<and>
                   status (last ss') = ''thinking'' \<and>
                   stepNumber (last ss') = int (length ss) + 1 \<and>
                   thinking (last ss') = Some content' \<and>
                   thinkingDuration (last ss') = duration data
              else length ss' = length ss \<and> butlast ss' = butlast ss \<and>
                   last ss' = (last ss)\<lparr>thinking := Some content',
                                           thinkingDuration := duration data,
                                           status := ''thinking''\<rparr>))"
proof -
  have "steps (last (messages (onThinking now data st))) = Some (current_steps (onThinking now data st))"
    using assms
    by (simp add: onThinking_def Let_def messages_updateLastMessage current_steps_def)
  then show ?thesis using assms
    by (simp add: Let_def current_steps_onThinking)
qed

theorem onThinking_reducer_witness:
  "messages ex_running \<noteq> [] \<and>
   length (current_steps (onThinking 1001 (empty_payload\<lparr>chunk := Some ''pl''\<rparr>) ex_running)) = 1 \<and>
   thinking (last (current_steps (onThinking 1001 (empty_payload\<lparr>chunk := Some ''pl''\<rparr>) ex_running))) = Some ''pl''"
proof -
  have h: "messages ex_running \<noteq> []" by (rule ex_running_steps)
  have c: "current_steps ex_running = []" by (rule ex_running_steps)
  from onThinking_reducer [OF h, of 1001 "empty_payload\<lparr>chunk := Some ''pl''\<rparr>"] h c
  show ?thesis by (simp add: Let_def empty_payload_def)
qed

text \<open>
  Claim C2. An action frame arrives. If the step list of the last message is not empty,
  its last step gets the action and the duration of the payload and status completed,
  and the other steps and the number of steps stay. If the list is empty (also when
  there is no message), the store is unchanged: no step is made from an action frame.
\<close>

theorem onAction_reducer:
  "(let ss = current_steps st;
        st' = onAction data st;
        ss' = current_steps st'
    in if ss \<noteq> []
       then steps (last (messages st')) = Some ss' \<and>
            length ss' = length ss \<and> butlast ss' = butlast ss \<and>
            last ss' = (last ss)\<lparr>action := p_action data,
                                    actionDuration := duration data,
                                    status := ''completed''\<rparr> \<and>
            status (last ss') = ''completed''
       else st' = st)"
proof (cases "current_steps st = []")
  case True
  then show ?thesis by (simp add: onAction_def Let_def)
next
  case False
  then have m: "messages st \<noteq> []" using current_steps_no_message by blast
  from False m
  have "steps (last (messages (onAction data st))) = Some (current_steps (onAction data st))"
    by (simp add: onAction_def Let_def messages_updateLastMessage current_steps_def)
  with False show ?thesis
    by (simp add: Let_def current_steps_onAction)
qed

theorem onAction_reducer_witness:
  "onAction (empty_payload\<lparr>p_action := Some [(''action'', JStr ''tap'')]\<rparr>) ex_running = ex_running \<and>
   map status (current_steps (onAction (empty_payload\<lparr>p_action := Some [(''action'', JStr ''tap'')]\<rparr>)
      (onThinking 1001 (empty_payload\<lparr>full := Some ''plan A''\<rparr>) ex_running))) = [''completed'']"
proof -
  let ?a = "empty_payload\<lparr>p_action := Some [(''action'', JStr ''tap'')]\<rparr>"
  let ?st = "onThinking 1001 (empty_payload\<lparr>full := Some ''plan A''\<rparr>) ex_running"
  have c: "current_steps ?st \<noteq> []" "length (current_steps ?st) = 1"
    by (simp_all add: current_steps_onThinking ex_running_steps)
  from onAction_reducer [of ex_running ?a] have 1: "onAction ?a ex_running = ex_running"
    by (simp add: Let_def ex_running_steps)
  from onAction_reducer [of ?st ?a] c
  have "length (current_steps (onAction ?a ?st)) = 1" "status (last (current_steps (onAction ?a ?st))) = ''completed''"
    by (simp_all add: Let_def)
  then have "map status (current_steps (onAction ?a ?st)) = [''completed'']"
    by (cases "current_steps (onAction ?a ?st)") simp_all
  with 1 show ?thesis by simp
qed

text \<open>
  Claim C3. From an empty step list, after any sequence of frames of any kinds (thinking
  and action frames among them) applied in order, the step at position \<open>i\<close> (from 0) has
  step number \<open>i + 1\<close>, and every step but the last is completed: only the last step
  can be open.
\<close>

theorem step_timeline_invariant:
  assumes "current_steps st = []"
  shows "(let ss = current_steps (apply_frames fs st)
          in (\<forall>i<length ss. stepNumber (ss ! i) = int i + 1) \<and>
             (\<forall>i. Suc i < length ss \<longrightarrow> status (ss ! i) = ''completed''))"
proof -
  from assms have "steps_inv (current_steps st)" by (simp add: steps_inv_Nil)
  then have "steps_inv (current_steps (apply_frames fs st))" by (rule steps_inv_apply_frames)
  then show ?thesis by (simp add: Let_def steps_inv_nth)
qed

theorem step_timeline_invariant_witness:
  "current_steps ex_running = [] \<and>
   map (\<lambda>s. (stepNumber s, status s)) (current_steps (apply_frames ex_frames_B ex_running)) =
     [(1, ''completed''), (2, ''thinking'')]"
proof -
  have h: "current_steps ex_running = []" by (rule ex_running_steps)
  let ?ss = "current_steps (apply_frames ex_frames_B ex_running)"
  from ex_B_steps have "map (\<lambda>s. (thinking s, status s)) ?ss = [(Some ''p1 continued'', ''completed''), (Some ''p2'', ''thinking'')]"
    by (auto simp: map_eq_Cons_conv)
  then obtain a b where ab: "?ss = [a, b]" "status a = ''completed''" "status b = ''thinking''"
    by (auto simp: map_eq_Cons_conv)
  from step_timeline_invariant [OF h, of ex_frames_B]
  have inv: "\<forall>i<length ?ss. stepNumber (?ss ! i) = int i + 1"
    by (simp add: Let_def)
  from inv [rule_format, of 0] inv [rule_format, of 1] ab
  have "stepNumber a = 1" "stepNumber b = 2" by simp_all
  with ab h show ?thesis by simp
qed

section \<open>The frame parser\<close>

text \<open>
  Claim C9. A text arrives in two chunks \<open>c1\<close> and \<open>c2\<close>. When no frame spans the split
  (after \<open>c1\<close> the parser retains nothing), the frames taken from \<open>c1 @ c2\<close> are the
  frames of \<open>c1\<close> followed by the frames of \<open>c2\<close>, and the retained tail is that of
  \<open>c2\<close>. For every split, also one inside a frame and with any text \<open>b\<close> already in
  the buffer, feeding \<open>c1\<close> and then \<open>c2\<close> gives the frames and the tail of feeding
  \<open>c1 @ c2\<close> at once: no frame is lost or doubled at the boundary. The frames taken,
  each followed by a blank line, and then the retained tail are exactly the text that
  was in the buffer; no frame taken and not the retained tail holds a blank line, so what
  is retained is a frame that is not yet terminated.
\<close>

theorem chunked_parsing:
  "(snd (take_frames [] c1) = [] \<longrightarrow>
      take_frames [] (c1 @ c2) =
        (fst (take_frames [] c1) @ fst (take_frames [] c2), snd (take_frames [] c2))) \<and>
   take_frames b (c1 @ c2) =
     (fst (take_frames b c1) @ fst (take_frames (snd (take_frames b c1)) c2),
      snd (take_frames (snd (take_frames b c1)) c2)) \<and>
   concat (map (\<lambda>f. f @ frame_sep) (fst (take_frames b c1))) @ snd (take_frames b c1) = b @ c1 \<and>
   list_all (\<lambda>f. \<not> contains frame_sep f) (fst (take_frames b c1)) \<and>
   \<not> contains frame_sep (snd (take_frames b c1))"
proof -
  have "take_frames [] (c1 @ c2) =
        (fst (take_frames [] c1) @ fst (take_frames [] c2), snd (take_frames [] c2))"
    if "snd (take_frames [] c1) = []"
    using take_frames_append [of "[]" c1 c2] that by simp
  then show ?thesis
    using take_frames_append [of b c1 c2] take_frames_concat [of b c1] take_frames_pieces [of b c1]
    by blast
qed

lemma ex_split_1: "take_frames [] ex_chunk_1 = ([''a''], [])"
  by (simp add: ex_chunk_1_def take_frames_def frame_sep_def LF_def Let_def)

lemma ex_split_2: "take_frames [] ex_chunk_2 = ([''b''], ''c'')"
  by (simp add: ex_chunk_2_def take_frames_def frame_sep_def LF_def Let_def)

theorem chunked_parsing_witness:
  "snd (take_frames [] ex_chunk_1) = [] \<and>
   take_frames [] (ex_chunk_1 @ ex_chunk_2) = ([''a'', ''b''], ''c'')"
proof -
  have h: "snd (take_frames [] ex_chunk_1) = []" by (simp add: ex_split_1)
  from chunked_parsing [of ex_chunk_1 ex_chunk_2 "[]"] h
  have "take_frames [] (ex_chunk_1 @ ex_chunk_2) =
     (fst (take_frames [] ex_chunk_1) @ fst (take_frames [] ex_chunk_2),
      snd (take_frames [] ex_chunk_2))" by blast
  with h show ?thesis by (simp add: ex_split_1 ex_split_2)
qed

text \<open>
  Claim C5. A frame \<open>m\<close> whose scan leaves the kind or the data empty, or whose data
  does not parse, is dropped and the loop goes on: the frames \<open>xs\<close>, \<open>m\<close>, \<open>ys\<close>
  handled in order give the state that \<open>xs\<close>, \<open>ys\<close> give, every frame handled at the
  clock reading it had. The same holds for the byte stream in which every frame is
  followed by a blank line, when no frame holds a blank line or ends with a line feed:
  the buffer and the store after the stream with \<open>m\<close> are those after the stream
  without it, so in particular the step counts are equal.
\<close>

theorem malformed_frame_dropped:
  assumes "malformed parse m"
  shows "process_events parse clock i (xs @ m # ys) st =
           process_events parse (skip_reading (i + length xs) clock) i (xs @ ys) st \<and>
         (list_all (\<lambda>f. \<not> contains frame_sep (f @ [LF])) (xs @ m # ys) \<longrightarrow>
            feed parse clock (encode_frames (xs @ m # ys)) ([], st) =
              feed parse (skip_reading (length xs) clock) (encode_frames (xs @ ys)) ([], st) \<and>
            length (current_steps (snd (feed parse clock (encode_frames (xs @ m # ys)) ([], st)))) =
              length (current_steps (snd (feed parse (skip_reading (length xs) clock)
                 (encode_frames (xs @ ys)) ([], st)))))"
proof -
  have "feed parse clock (encode_frames (xs @ m # ys)) ([], st) =
        feed parse (skip_reading (length xs) clock) (encode_frames (xs @ ys)) ([], st)"
    if clean: "list_all (\<lambda>f. \<not> contains frame_sep (f @ [LF])) (xs @ m # ys)"
  proof -
    from clean have "list_all (\<lambda>f. \<not> contains frame_sep (f @ [LF])) (xs @ ys)" by simp
    then have "take_frames [] (encode_frames (xs @ ys)) = (xs @ ys, [])"
      by (rule take_frames_encode_frames)
    moreover from clean have "take_frames [] (encode_frames (xs @ m # ys)) = (xs @ m # ys, [])"
      by (rule take_frames_encode_frames)
    ultimately show ?thesis
      using process_events_drop_malformed [OF assms, of clock 0 xs ys st]
      by (simp add: feed_def)
  qed
  then show ?thesis
    using process_events_drop_malformed [OF assms, of clock i xs ys st] by simp
qed

lemma ex_parse_frames:
  "parse_frame ex_frame_p1 = (''thinking'', ex_json ''p1'')"
  "parse_frame ex_frame_p2 = (''thinking'', ex_json ''p2'')"
  "parse_frame ex_bad_frame = (''thinking'', [])"
  by (simp_all add: parse_frame_def ex_frame_p1_def ex_frame_p2_def ex_bad_frame_def
      ex_frame_def ex_json_def LF_def startsWith_def)

lemma ex_clean:
  "\<not> contains frame_sep (ex_frame_p1 @ [LF])"
  "\<not> contains frame_sep (ex_frame_p2 @ [LF])"
  "\<not> contains frame_sep (ex_bad_frame @ [LF])"
  by (simp_all add: ex_frame_p1_def ex_frame_p2_def ex_bad_frame_def ex_frame_def ex_json_def
      LF_def frame_sep_def)

lemma ex_not_blank: "\<not> is_blank ex_frame_p1" "\<not> is_blank ex_frame_p2"
  by (simp_all add: is_blank_def ex_frame_p1_def ex_frame_p2_def ex_frame_def js_whitespace_def)

lemma ex_parse_values:
  "ex_parse (ex_json ''p1'') = Some (empty_payload\<lparr>full := Some ''p1''\<rparr>)"
  "ex_parse (ex_json ''p2'') = Some (empty_payload\<lparr>full := Some ''p2''\<rparr>)"
  "ex_json ''p1'' \<noteq> []" "ex_json ''p2'' \<noteq> []"
  by (simp_all add: ex_parse_def ex_json_def)

theorem malformed_frame_dropped_witness:
  "malformed ex_parse ex_bad_frame \<and>
   list_all (\<lambda>f. \<not> contains frame_sep (f @ [LF])) ([ex_frame_p1] @ ex_bad_frame # [ex_frame_p2]) \<and>
   map thinking (current_steps (snd (feed ex_parse (\<lambda>i. 1001 + i)
     (encode_frames ([ex_frame_p1] @ ex_bad_frame # [ex_frame_p2])) ([], ex_running)))) =
     [Some ''p2'']"
proof -
  have m: "malformed ex_parse ex_bad_frame"
    by (simp add: malformed_def ex_parse_frames)
  have cl: "list_all (\<lambda>f. \<not> contains frame_sep (f @ [LF])) ([ex_frame_p1] @ ex_bad_frame # [ex_frame_p2])"
    by (simp add: ex_clean)
  have cl2: "list_all (\<lambda>f. \<not> contains frame_sep (f @ [LF])) ([ex_frame_p1] @ [ex_frame_p2])"
    by (simp add: ex_clean)
  from malformed_frame_dropped [OF m, of "\<lambda>i. 1001 + i" 0 "[ex_frame_p1]" "[ex_frame_p2]" ex_running] cl
  have "feed ex_parse (\<lambda>i. 1001 + i) (encode_frames ([ex_frame_p1] @ ex_bad_frame # [ex_frame_p2])) ([], ex_running) =
        feed ex_parse (skip_reading (length [ex_frame_p1]) (\<lambda>i. 1001 + i))
          (encode_frames ([ex_frame_p1] @ [ex_frame_p2])) ([], ex_running)"
    by blast
  also have "\<dots> = ([], process_events ex_parse (skip_reading 1 (\<lambda>i. 1001 + i)) 0
       [ex_frame_p1, ex_frame_p2] ex_running)"
    using take_frames_encode_frames [OF cl2] by (simp add: feed_def)
  finally have "map thinking (current_steps (snd (feed ex_parse (\<lambda>i. 1001 + i)
     (encode_frames ([ex_frame_p1] @ ex_bad_frame # [ex_frame_p2])) ([], ex_running)))) = [Some ''p2'']"
    by (simp add: process_event_def ex_not_blank ex_parse_frames ex_parse_values dispatch_def
        current_steps_onThinking ex_running_steps messages_onThinking_empty empty_payload_def)
  with m cl show ?thesis by blast
qed


lemma or_else_case:
  "or_else x d = (case x of None \<Rightarrow> d | Some s \<Rightarrow> if s = [] then d else s)"
  by (cases x) simp_all



section \<open>History conversion\<close>




lemma updateLastMessage_other:
  "sessions (updateLastMessage f st) = sessions st"
  "currentSession (updateLastMessage f st) = currentSession st"
  "isCreatingSession (updateLastMessage f st) = isCreatingSession st"
  "selectedAgentType (updateLastMessage f st) = selectedAgentType st"
  "isProcessing (updateLastMessage f st) = isProcessing st"
  "screenshot (updateLastMessage f st) = screenshot st"
  "takeover (updateLastMessage f st) = takeover st"
  "sseController (updateLastMessage f st) = sseController st"
  by (simp_all add: updateLastMessage_def Let_def)

lemma ex_takeover_idle_eq:
  "ex_takeover_idle =
     \<lparr> sessions = [], currentSession = Some ex_session, isCreatingSession = False,
       selectedAgentType = ''glm'',
       messages =
         [\<lparr> msg_id = ''user-'' @ show_nat 1000, role = ''user'', content = ''open settings'',
             steps = None, isStreaming = None, msg_timestamp = Date_ms 1000, msg_action = None \<rparr>,
          \<lparr> msg_id = ''assistant-'' @ show_nat 1000, role = ''assistant'', content = ''done'',
             steps = Some [], isStreaming = Some False, msg_timestamp = Date_ms 1000,
             msg_action = None \<rparr>],
       isProcessing = False, screenshot = None,
       takeover = \<lparr> isActive = True, tk_message = Some ''please login'' \<rparr>,
       sseController = None \<rparr>"
  by (simp add: ex_takeover_idle_def ex_running_eq dispatch_def onTakeover_def onCompleted_def
      updateLastMessage_def empty_payload_def Let_def)

section \<open>Task lifecycle\<close>

text \<open>
  Claim C6, as stated, fails. In the state reached when a takeover frame and then a
  completed frame arrive during a task, the takeover is active on the current session
  and no task is processing; sendTask there appends the user message and the assistant
  placeholder, opens a connection and starts the task.
\<close>

theorem sendTask_takeover_counterexample:
  "isActive (takeover ex_takeover_idle) \<and>
   currentSession ex_takeover_idle = Some ex_session \<and>
   length (messages ex_takeover_idle) = 2 \<and>
   length (messages (fst (sendTask 2000 ''next task'' (Some 8) ex_takeover_idle))) = 4 \<and>
   isProcessing (fst (sendTask 2000 ''next task'' (Some 8) ex_takeover_idle)) \<and>
   sseController (fst (sendTask 2000 ''next task'' (Some 8) ex_takeover_idle)) = Some 8 \<and>
   snd (sendTask 2000 ''next task'' (Some 8) ex_takeover_idle) =
     [RunTaskWithSSE ''s1'' ''next task'' ''glm'']"
  by (simp add: ex_takeover_idle_eq sendTask_def Let_def ex_session_def)

text \<open>
  Claim C6, amended. sendTask is rejected as a no-op (state unchanged, no call made)
  when a task is processing or no session is selected; these are its only two guards.
  With a session selected and no task processing it appends the user message and the
  assistant placeholder, opens the connection, and, when the connection is returned,
  the task is processing and the placeholder is streaming; the takeover state is neither
  read nor written. So a takeover blocks a new task only as long as the task that raised
  it is still processing.
\<close>

theorem sendTask_rejection:
  "(isProcessing st \<or> currentSession st = None \<longrightarrow> sendTask now task conn st = (st, [])) \<and>
   (\<not> isProcessing st \<and> currentSession st = Some cs \<longrightarrow>
      (let st' = fst (sendTask now task conn st)
       in length (messages st') = length (messages st) + 2 \<and>
          take (length (messages st)) (messages st') = messages st \<and>
          role (messages st' ! length (messages st)) = ''user'' \<and>
          content (messages st' ! length (messages st)) = task \<and>
          role (last (messages st')) = ''assistant'' \<and>
          snd (sendTask now task conn st) =
            [RunTaskWithSSE (session_id cs) task (selectedAgentType st)] \<and>
          takeover st' = takeover st \<and>
          (\<forall>c. conn = Some c \<longrightarrow> isProcessing st' \<and> sseController st' = Some c \<and>
                 isStreaming (last (messages st')) = Some True)))"
  by (cases conn)
    (auto simp: sendTask_def Let_def messages_updateLastMessage updateLastMessage_other
       nth_append butlast_append)

theorem sendTask_rejection_witness:
  "isProcessing ex_running \<and> sendTask 2000 ''next task'' (Some 8) ex_running = (ex_running, []) \<and>
   \<not> isProcessing ex_takeover_idle \<and> currentSession ex_takeover_idle = Some ex_session \<and>
   length (messages (fst (sendTask 2000 ''next task'' (Some 8) ex_takeover_idle))) = 4"
proof -
  have p: "isProcessing ex_running" by (simp add: ex_running_eq)
  have q: "\<not> isProcessing ex_takeover_idle \<and> currentSession ex_takeover_idle = Some ex_session"
    by (simp add: ex_takeover_idle_eq)
  have l: "length (messages ex_takeover_idle) = 2" by (simp add: ex_takeover_idle_eq)
  from sendTask_rejection [where st = ex_running and now = 2000 and task = "''next task''"
      and conn = "Some 8"] p
  have 1: "sendTask 2000 ''next task'' (Some 8) ex_running = (ex_running, [])" by blast
  from sendTask_rejection [where st = ex_takeover_idle and cs = ex_session and now = 2000
      and task = "''next task''" and conn = "Some 8"] q l
  have 2: "length (messages (fst (sendTask 2000 ''next task'' (Some 8) ex_takeover_idle))) = 4"
    by (simp add: Let_def)
  from p q 1 2 show ?thesis by blast
qed

text \<open>
  Claim C7. stopTask on a processing task with a session selected, whether the stop
  request resolves (\<open>ok\<close>) or rejects: afterwards no task is processing, the connection
  handle is cleared, and the last message, when there is one, is not streaming and
  has the stopped text, respectively the cancelled text, as content. completeTakeover
  in any state, whether or not the notification resolves: afterwards the takeover is
  inactive.
\<close>

theorem side_channel_failure_tolerated:
  "(isProcessing st \<and> currentSession st = Some cs \<longrightarrow>
      (let st' = fst (stopTask ok st)
       in \<not> isProcessing st' \<and> sseController st' = None \<and>
          length (messages st') = length (messages st) \<and>
          (messages st \<noteq> [] \<longrightarrow>
             isStreaming (last (messages st')) = Some False \<and>
             content (last (messages st')) =
               (if ok then text_task_stopped else text_task_cancelled)))) \<and>
   \<not> isActive (takeover (fst (completeTakeover ok st)))"
  by (auto simp: stopTask_def completeTakeover_def Let_def messages_updateLastMessage
      length_messages_updateLastMessage)

theorem side_channel_failure_tolerated_witness:
  "isProcessing ex_running \<and> currentSession ex_running = Some ex_session \<and>
   messages ex_running \<noteq> [] \<and>
   \<not> isProcessing (fst (stopTask False ex_running)) \<and>
   sseController (fst (stopTask False ex_running)) = None \<and>
   isStreaming (last (messages (fst (stopTask False ex_running)))) = Some False \<and>
   content (last (messages (fst (stopTask False ex_running)))) = text_task_cancelled \<and>
   isActive (takeover ex_takeover_idle) \<and>
   \<not> isActive (takeover (fst (completeTakeover False ex_takeover_idle)))"
proof -
  have h: "isProcessing ex_running \<and> currentSession ex_running = Some ex_session"
    by (simp add: ex_running_eq)
  have m: "messages ex_running \<noteq> []" by (rule ex_running_steps)
  have t: "isActive (takeover ex_takeover_idle)" by (simp add: ex_takeover_idle_eq)
  from side_channel_failure_tolerated [where st = ex_running and cs = ex_session and ok = False] h m
  have 1: "\<not> isProcessing (fst (stopTask False ex_running)) \<and>
   sseController (fst (stopTask False ex_running)) = None \<and>
   isStreaming (last (messages (fst (stopTask False ex_running)))) = Some False \<and>
   content (last (messages (fst (stopTask False ex_running)))) = text_task_cancelled"
    by (simp add: Let_def)
  from side_channel_failure_tolerated [where st = ex_takeover_idle and ok = False]
  have 2: "\<not> isActive (takeover (fst (completeTakeover False ex_takeover_idle)))" by blast
  from h m t 1 2 show ?thesis by blast
qed

lemma last_messages_updateLastMessage:
  "messages st \<noteq> [] \<Longrightarrow> last (messages (updateLastMessage f st)) = f (last (messages st))"
  by (simp add: messages_updateLastMessage)

lemma butlast_messages_updateLastMessage:
  "butlast (messages (updateLastMessage f st)) = butlast (messages st)"
  by (simp add: messages_updateLastMessage)

lemma terminal_completed:
  assumes "messages st \<noteq> []"
  shows "content (last (messages (onCompleted data st))) = or_else (p_message data) text_task_completed"
    "isStreaming (last (messages (onCompleted data st))) = Some False"
    "\<not> isProcessing (onCompleted data st)" "sseController (onCompleted data st) = None"
    "steps (last (messages (onCompleted data st))) = steps (last (messages st))"
    "current_steps (onCompleted data st) = current_steps st"
    "butlast (messages (onCompleted data st)) = butlast (messages st)"
    "length (messages (onCompleted data st)) = length (messages st)"
  using assms
  by (simp_all add: onCompleted_def last_messages_updateLastMessage
      butlast_messages_updateLastMessage current_steps_updateLastMessage_same
      length_messages_updateLastMessage)

lemma terminal_stopped:
  assumes "messages st \<noteq> []"
  shows "content (last (messages (onStopped data st))) = or_else (p_message data) text_task_stopped"
    "isStreaming (last (messages (onStopped data st))) = Some False"
    "\<not> isProcessing (onStopped data st)" "sseController (onStopped data st) = None"
    "steps (last (messages (onStopped data st))) = steps (last (messages st))"
    "current_steps (onStopped data st) = current_steps st"
    "butlast (messages (onStopped data st)) = butlast (messages st)"
    "length (messages (onStopped data st)) = length (messages st)"
  using assms
  by (simp_all add: onStopped_def last_messages_updateLastMessage
      butlast_messages_updateLastMessage current_steps_updateLastMessage_same
      length_messages_updateLastMessage)

lemma terminal_error:
  assumes "messages st \<noteq> []" and "isStreaming (last (messages st)) = Some True"
  shows "content (last (messages (onError data st))) = text_error_prefix @ template_str (p_message data)"
    "isStreaming (last (messages (onError data st))) = Some False"
    "\<not> isProcessing (onError data st)" "sseController (onError data st) = None"
    "steps (last (messages (onError data st))) = steps (last (messages st))"
    "current_steps (onError data st) = current_steps st"
    "butlast (messages (onError data st)) = butlast (messages st)"
    "length (messages (onError data st)) = length (messages st)"
proof -
  have l: "messages st ! (length (messages st) - Suc 0) = last (messages st)"
    using assms(1) by (simp add: last_conv_nth)
  show "content (last (messages (onError data st))) = text_error_prefix @ template_str (p_message data)"
    "isStreaming (last (messages (onError data st))) = Some False"
    "\<not> isProcessing (onError data st)" "sseController (onError data st) = None"
    "steps (last (messages (onError data st))) = steps (last (messages st))"
    "current_steps (onError data st) = current_steps st"
    "butlast (messages (onError data st)) = butlast (messages st)"
    "length (messages (onError data st)) = length (messages st)"
    using assms l
    by (simp_all add: onError_def Let_def last_messages_updateLastMessage
        butlast_messages_updateLastMessage current_steps_updateLastMessage_same
        length_messages_updateLastMessage)
qed

text \<open>
  Claim C8. A completed or stopped frame arrives while the store holds a last message:
  its content becomes the message of the frame, or the default text of the kind when
  the message is missing or empty; it is not streaming any more; no task is processing
  and the connection handle is cleared; the steps of the message are untouched, so an
  open last step keeps status thinking; the other messages stay. An error frame that
  arrives while the last message is streaming does the same with the content
  \<open>text_error_prefix\<close> (the label of the source and \<open>": "\<close>, as UTF-8 bytes) followed by the
  message of the frame.
\<close>

theorem terminal_frames:
  assumes "messages st \<noteq> []"
  shows "(let st' = dispatch now ''completed'' data st
          in content (last (messages st')) =
               (case p_message data of
                  None \<Rightarrow> text_task_completed
                | Some t \<Rightarrow> if t = [] then text_task_completed else t) \<and>
             isStreaming (last (messages st')) = Some False \<and>
             \<not> isProcessing st' \<and> sseController st' = None \<and>
             steps (last (messages st')) = steps (last (messages st)) \<and>
             butlast (messages st') = butlast (messages st) \<and>
             length (messages st') = length (messages st)) \<and>
         (let st' = dispatch now ''stopped'' data st
          in content (last (messages st')) =
               (case p_message data of
                  None \<Rightarrow> text_task_stopped
                | Some t \<Rightarrow> if t = [] then text_task_stopped else t) \<and>
             isStreaming (last (messages st')) = Some False \<and>
             \<not> isProcessing st' \<and> sseController st' = None \<and>
             steps (last (messages st')) = steps (last (messages st)) \<and>
             butlast (messages st') = butlast (messages st) \<and>
             length (messages st') = length (messages st)) \<and>
         (isStreaming (last (messages st)) = Some True \<longrightarrow>
            (let st' = dispatch now ''error'' data st
             in content (last (messages st')) = text_error_prefix @ template_str (p_message data) \<and>
                isStreaming (last (messages st')) = Some False \<and>
                \<not> isProcessing st' \<and> sseController st' = None \<and>
                steps (last (messages st')) = steps (last (messages st)) \<and>
                butlast (messages st') = butlast (messages st) \<and>
                length (messages st') = length (messages st)))"
proof -
  have d: "dispatch now ''completed'' data st = onCompleted data st"
    "dispatch now ''stopped'' data st = onStopped data st"
    "dispatch now ''error'' data st = onError data st"
    by (simp_all add: dispatch_def)
  show ?thesis
    unfolding d Let_def
    using terminal_completed [OF assms, of data] terminal_stopped [OF assms, of data]
      terminal_error [OF assms, of data]
    by (simp add: or_else_case)
qed

lemma length_messages_apply_frames:
  "length (messages (apply_frames fs st)) = length (messages st)"
  by (induction fs arbitrary: st) (auto simp: length_messages_dispatch)

lemma ex_open_step_facts:
  "messages ex_open_step \<noteq> []"
  "isStreaming (last (messages ex_open_step)) = Some True"
  "map status (current_steps ex_open_step) = [''completed'', ''thinking'']"
  by (simp_all add: ex_open_step_def ex_frames_B_def ex_running_eq dispatch_def onThinking_def
      onAction_def updateLastMessage_def current_steps_def empty_payload_def Let_def)

theorem terminal_frames_witness:
  "messages ex_open_step \<noteq> [] \<and>
   map status (current_steps ex_open_step) = [''completed'', ''thinking''] \<and>
   content (last (messages (dispatch 1005 ''stopped'' (empty_payload\<lparr>p_message := Some ''cancelled''\<rparr>)
      ex_open_step))) = ''cancelled'' \<and>
   map status (current_steps (dispatch 1005 ''stopped'' (empty_payload\<lparr>p_message := Some ''cancelled''\<rparr>)
      ex_open_step)) = [''completed'', ''thinking'']"
proof -
  let ?d = "empty_payload\<lparr>p_message := Some ''cancelled''\<rparr>"
  let ?st = "dispatch 1005 ''stopped'' ?d ex_open_step"
  have m: "messages ex_open_step \<noteq> []" by (rule ex_open_step_facts)
  have s: "map status (current_steps ex_open_step) = [''completed'', ''thinking'']"
    by (rule ex_open_step_facts)
  from terminal_frames [OF m, of 1005 ?d]
  have c: "content (last (messages ?st)) = ''cancelled''"
    and k: "steps (last (messages ?st)) = steps (last (messages ex_open_step))"
    and l: "length (messages ?st) = length (messages ex_open_step)"
    by (simp_all add: Let_def empty_payload_def)
  from l m have "messages ?st \<noteq> []" by (metis length_0_conv)
  with k m have "current_steps ?st = current_steps ex_open_step"
    by (simp add: current_steps_def)
  with m s c show ?thesis by simp
qed

text \<open>
  Claim C10. selectSession, whatever the server answers, changes at most the fields
  currentSession, messages, screenshot, isProcessing, selectedAgentType and
  sseController of the store: the state after it is the state before it with these six
  fields replaced. In particular the takeover state is the same, so a takeover that is
  active before the switch is active after it. createSession, when the session is
  created, leaves the takeover inactive.
\<close>

theorem selectSession_keeps_takeover:
  "(let st' = fst (selectSession s loaded st)
    in takeover st' = takeover st \<and>
       st' = st\<lparr>currentSession := currentSession st', messages := messages st',
                 screenshot := screenshot st', isProcessing := isProcessing st',
                 selectedAgentType := selectedAgentType st',
                 sseController := sseController st'\<rparr> \<and>
       currentSession st' = Some s \<and> screenshot st' = None \<and> \<not> isProcessing st' \<and>
       sseController st' = None) \<and>
   \<not> isActive (takeover (fst (snd (createSession name (Some s) st))))"
proof -
  have sel: "(let st' = fst (selectSession s loaded st)
      in takeover st' = takeover st \<and>
         st' = st\<lparr>currentSession := currentSession st', messages := messages st',
                   screenshot := screenshot st', isProcessing := isProcessing st',
                   selectedAgentType := selectedAgentType st',
                   sseController := sseController st'\<rparr> \<and>
         currentSession st' = Some s \<and> screenshot st' = None \<and> \<not> isProcessing st' \<and>
         sseController st' = None)"
  proof (cases loaded)
    case None
    then show ?thesis by (simp add: selectSession_def Let_def)
  next
    case (Some conversations)
    then show ?thesis
      by (cases "convert_all conversations") (simp_all add: selectSession_def Let_def)
  qed
  have "\<not> isActive (takeover (fst (snd (createSession name (Some s) st))))"
    by (simp add: createSession_def Let_def)
  with sel show ?thesis by simp
qed

theorem selectSession_keeps_takeover_witness:
  "isActive (takeover ex_takeover_idle) \<and>
   isActive (takeover (fst (selectSession ex_session_2 (Some [ex_conv_legacy]) ex_takeover_idle))) \<and>
   currentSession (fst (selectSession ex_session_2 (Some [ex_conv_legacy]) ex_takeover_idle)) =
     Some ex_session_2 \<and>
   \<not> isActive (takeover (fst (snd (createSession None (Some ex_session_2) ex_takeover_idle))))"
proof -
  have t: "isActive (takeover ex_takeover_idle)" by (simp add: ex_takeover_idle_eq)
  from selectSession_keeps_takeover
    [where s = ex_session_2 and loaded = "Some [ex_conv_legacy]" and st = ex_takeover_idle
       and name = None]
  show ?thesis using t by (simp add: Let_def)
qed

end
